theory Spec2Isabelle
  imports Complex_Main "HOL-Library.Sublist" "HOL-Library.Multiset" "HOL-Library.Log_Nat"
begin

section \<open>Python values and failures\<close>

text \<open>
  The exceptions that the modelled parts of \<^verbatim>\<open>set_wallpaper.py\<close> can raise.
  \<open>OSError\<close> stands for the failure of \<^verbatim>\<open>os.listdir\<close> on a missing folder.
\<close>

datatype error = IndexError | ZeroDivisionError | ValueError | OSError | OverflowError

text \<open>
  Python list indexing \<^verbatim>\<open>xs[i]\<close>: a negative index counts from the end, and an
  index outside \<open>[-len, len)\<close> raises IndexError.
\<close>

definition py_index :: "'a list \<Rightarrow> int \<Rightarrow> error + 'a" where
  "py_index xs i =
     (if 0 \<le> i \<and> i < int (length xs) then Inr (xs ! nat i)
      else if - int (length xs) \<le> i \<and> i < 0 then Inr (xs ! nat (int (length xs) + i))
      else Inl IndexError)"

section \<open>Python floats\<close>

text \<open>
  A Python float is an IEEE 754 binary64 number. A finite one is modelled by the rational
  number it denotes (the sign of a zero never matters below); every arithmetic operation
  computes the exact rational result and rounds it to the nearest double, ties to the
  even significand.

  \<open>ilog2 x\<close> is the binary exponent of a positive \<open>x\<close>, the integer \<open>k\<close> with
  \<open>2 ^ k \<le> x < 2 ^ (k + 1)\<close>.
\<close>

definition ilog2 :: "rat \<Rightarrow> int" where
  "ilog2 x = (let (a, b) = quotient_of x; k = bitlen a - bitlen b
              in if 2 powi k \<le> x then k else k - 1)"

text \<open>Rounding a rational to the nearest integer, a tie going to the even one.\<close>

definition round_half_even :: "rat \<Rightarrow> int" where
  "round_half_even q =
     (let n = \<lfloor>q\<rfloor>; r = q - of_int n
      in if r < 1 / 2 then n else if 1 / 2 < r then n + 1 else if even n then n else n + 1)"

text \<open>
  The doubles around \<open>x\<close> are the multiples of \<open>2 ^ e\<close>, where \<open>e\<close> is the exponent of
  \<open>x\<close> less the 52 fraction bits, and not below \<open>-1074\<close>, the exponent of the
  subnormal numbers.
\<close>

definition ulp_exponent :: "rat \<Rightarrow> int" where
  "ulp_exponent x = max (ilog2 \<bar>x\<bar> - 52) (- 1074)"

text \<open>Rounding to the nearest double, before the check for overflow.\<close>

definition round_double :: "rat \<Rightarrow> rat" where
  "round_double x =
     (if x = 0 then 0
      else let e = ulp_exponent x in of_int (round_half_even (x / 2 powi e)) * 2 powi e)"

text \<open>The rationals that are doubles: rounding leaves them as they are.\<close>

definition is_double :: "rat \<Rightarrow> bool" where
  "is_double x = (round_double x = x)"

text \<open>
  The result of an operation: a rounded value of magnitude \<open>2 ^ 1024\<close> or more has
  overflowed and is an infinity. (No operation below can produce a NaN: the operands
  of a product are finite, and a divisor is finite and not zero.)
\<close>

datatype double = Finite rat | PlusInf | MinusInf

definition double_limit :: rat where
  "double_limit = 2 powi 1024"

definition to_double :: "rat \<Rightarrow> double" where
  "to_double x =
     (let r = round_double x
      in if r \<noteq> 0 \<and> 1024 \<le> ilog2 \<bar>r\<bar> then (if 0 < r then PlusInf else MinusInf)
         else Finite r)"

text \<open>
  The conversion of an int operand to a float, as done by the mixed operations
  \<^verbatim>\<open>int * float\<close> and \<^verbatim>\<open>float - int\<close>: the nearest double, or OverflowError
  (\<^verbatim>\<open>int too large to convert to float\<close>).
\<close>

definition float_of_int :: "int \<Rightarrow> error + rat" where
  "float_of_int n =
     (case to_double (of_int n) of Finite r \<Rightarrow> Inr r | _ \<Rightarrow> Inl OverflowError)"

text \<open>\<^verbatim>\<open>n * x\<close> for an int \<open>n\<close> and a finite float \<open>x\<close>.\<close>

definition py_mul :: "int \<Rightarrow> rat \<Rightarrow> error + double" where
  "py_mul n x =
     (case float_of_int n of Inl e \<Rightarrow> Inl e | Inr d \<Rightarrow> Inr (to_double (d * x)))"

text \<open>
  \<^verbatim>\<open>a / b\<close> for a float \<open>a\<close> and a finite float \<open>b\<close>: a zero divisor raises
  ZeroDivisionError.
\<close>

definition py_truediv :: "double \<Rightarrow> rat \<Rightarrow> error + double" where
  "py_truediv a b =
     (if b = 0 then Inl ZeroDivisionError
      else Inr (case a of
                  Finite x \<Rightarrow> to_double (x / b)
                | PlusInf \<Rightarrow> (if 0 < b then PlusInf else MinusInf)
                | MinusInf \<Rightarrow> (if 0 < b then MinusInf else PlusInf)))"

text \<open>\<^verbatim>\<open>a + n\<close> for a float \<open>a\<close> and a small int \<open>n\<close> (one that is a double).\<close>

fun py_add :: "double \<Rightarrow> int \<Rightarrow> double" where
  "py_add (Finite x) n = to_double (x + of_int n)"
| "py_add PlusInf n = PlusInf"
| "py_add MinusInf n = MinusInf"

text \<open>\<^verbatim>\<open>a - n\<close> for a float \<open>a\<close> and an int \<open>n\<close>.\<close>

fun py_sub :: "double \<Rightarrow> int \<Rightarrow> error + double" where
  "py_sub (Finite x) n =
     (case float_of_int n of Inl e \<Rightarrow> Inl e | Inr f \<Rightarrow> Inr (to_double (x - f)))"
| "py_sub PlusInf n = (case float_of_int n of Inl e \<Rightarrow> Inl e | Inr f \<Rightarrow> Inr PlusInf)"
| "py_sub MinusInf n = (case float_of_int n of Inl e \<Rightarrow> Inl e | Inr f \<Rightarrow> Inr MinusInf)"

text \<open>
  The comparisons \<^verbatim>\<open>a < n\<close> and \<^verbatim>\<open>a > n\<close> of a float with an int compare the
  exact values.
\<close>

fun float_less :: "double \<Rightarrow> int \<Rightarrow> bool" where
  "float_less (Finite x) n = (x < of_int n)"
| "float_less PlusInf n = False"
| "float_less MinusInf n = True"

fun float_greater :: "double \<Rightarrow> int \<Rightarrow> bool" where
  "float_greater (Finite x) n = (of_int n < x)"
| "float_greater PlusInf n = True"
| "float_greater MinusInf n = False"

text \<open>\<^verbatim>\<open>math.floor\<close>: an infinity raises OverflowError.\<close>

fun math_floor :: "double \<Rightarrow> error + int" where
  "math_floor (Finite x) = Inr \<lfloor>x\<rfloor>"
| "math_floor PlusInf = Inl OverflowError"
| "math_floor MinusInf = Inl OverflowError"

text \<open>
  A datetime is an exact number of seconds (a multiple of a microsecond), and so is the
  difference of two. \<^verbatim>\<open>timedelta.total_seconds()\<close> divides its integer number of
  microseconds by \<open>10 ^ 6\<close>, which gives the double nearest to the exact number of
  seconds; the range of datetimes keeps it far from overflow.
\<close>

definition total_seconds :: "rat \<Rightarrow> rat" where
  "total_seconds delta = round_double delta"

text \<open>The order of the doubles, with the infinities at its ends.\<close>

fun double_le :: "double \<Rightarrow> double \<Rightarrow> bool" where
  "double_le MinusInf b = True"
| "double_le a PlusInf = True"
| "double_le (Finite x) (Finite y) = (x \<le> y)"
| "double_le a b = False"

section \<open>The interpolator: \<^verbatim>\<open>get_current_images\<close>\<close>

text \<open>
  \<^verbatim>\<open>
  def get_current_images(dawn_time, day_length, images, dusk_id):
      now = datetime.now(tzlocal())
      cursor = (now - dawn_time).total_seconds()
      image_id = dusk_id * cursor / day_length
      if image_id < 1 or image_id > len(images) - 1:
          # out of range, just pick last image
          last_image = images[len(images) - 1]
          return (last_image, last_image, 1)
      img1 = images[math.floor(image_id)]
      img2 = images[math.floor(image_id + 1)]
      amount = image_id - math.floor(image_id)
      return (img1, img2, amount)
  \<close>
  The wall clock read by \<^verbatim>\<open>datetime.now\<close> is the first argument \<open>now\<close>;
  \<open>day_length\<close> is a float, \<open>dusk_id\<close> an int. The fraction of the clamped branch is
  the int \<open>1\<close>; it is written as the float of the same value, which is what
  \<^verbatim>\<open>Image.blend\<close> makes of it.

  The value of \<^verbatim>\<open>image_id\<close>, the position in the image sequence, is the product
  \<^verbatim>\<open>dusk_id * cursor\<close> divided by \<^verbatim>\<open>day_length\<close>, each rounded.
\<close>

definition image_position :: "int \<Rightarrow> rat \<Rightarrow> rat \<Rightarrow> error + double" where
  "image_position dusk_id cursor day_length =
     (case py_mul dusk_id cursor of
        Inl e \<Rightarrow> Inl e
      | Inr product \<Rightarrow> py_truediv product day_length)"

definition get_current_images ::
  "rat \<Rightarrow> rat \<Rightarrow> rat \<Rightarrow> 'a list \<Rightarrow> int \<Rightarrow> error + ('a \<times> 'a \<times> double)" where
  "get_current_images now dawn_time day_length images dusk_id =
     (let cursor = total_seconds (now - dawn_time) in
      case image_position dusk_id cursor day_length of
        Inl e \<Rightarrow> Inl e
      | Inr image_id \<Rightarrow>
          if float_less image_id 1 \<or> float_greater image_id (int (length images) - 1) then
            (case py_index images (int (length images) - 1) of
               Inl e \<Rightarrow> Inl e
             | Inr last_image \<Rightarrow> Inr (last_image, last_image, Finite 1))
          else
            (case math_floor image_id of
               Inl e \<Rightarrow> Inl e
             | Inr i \<Rightarrow>
                 (case py_index images i of
                    Inl e \<Rightarrow> Inl e
                  | Inr img1 \<Rightarrow>
                      (case math_floor (py_add image_id 1) of
                         Inl e \<Rightarrow> Inl e
                       | Inr j \<Rightarrow>
                           (case py_index images j of
                              Inl e \<Rightarrow> Inl e
                            | Inr img2 \<Rightarrow>
                                (case py_sub image_id i of
                                   Inl e \<Rightarrow> Inl e
                                 | Inr amount \<Rightarrow> Inr (img1, img2, amount)))))))"

section \<open>Loading the images: \<^verbatim>\<open>init_images\<close>\<close>

text \<open>
  Python's \<^verbatim>\<open>sub in s\<close> on strings: \<open>sub\<close> occurs in \<open>s\<close> as a contiguous
  block, at any position.
\<close>

fun py_in :: "string \<Rightarrow> string \<Rightarrow> bool" where
  "py_in sub [] = (sub = [])"
| "py_in sub (c # cs) = (prefix sub (c # cs) \<or> py_in sub cs)"

text \<open>The selection test of the list comprehension, line 31 of the source.\<close>

definition is_image_name :: "string \<Rightarrow> bool" where
  "is_image_name f = (py_in ''jpeg'' f \<or> py_in ''jpg'' f \<or> py_in ''png'' f)"

definition is_digit :: "char \<Rightarrow> bool" where
  "is_digit c = (c \<in> set ''0123456789'')"

text \<open>
  \<^verbatim>\<open>re.sub(r'[^0-9]*', "", f)\<close> deletes every character that is not one of
  \<open>0\<close> to \<open>9\<close> and keeps the digits in their order.
\<close>

definition strip_non_digits :: "string \<Rightarrow> string" where
  "strip_non_digits f = filter is_digit f"

definition digit_value :: "char \<Rightarrow> int" where
  "digit_value c = int (of_char c) - 48"

text \<open>
  \<^verbatim>\<open>int(s)\<close> for a string \<open>s\<close> of decimal digits: the empty string raises
  ValueError, leading zeros are accepted. It is only ever applied to the result of
  \<open>strip_non_digits\<close>. (A file name is far shorter than the 4300 digits at which recent
  interpreters refuse the conversion.)
\<close>

definition py_int :: "string \<Rightarrow> error + int" where
  "py_int s = (if s = [] then Inl ValueError
               else Inr (foldl (\<lambda>n c. 10 * n + digit_value c) 0 s))"

text \<open>The sort key \<^verbatim>\<open>lambda f: int(re.sub(r'[^0-9]*', "", f))\<close>.\<close>

definition numeric_key :: "string \<Rightarrow> error + int" where
  "numeric_key f = py_int (strip_non_digits f)"

text \<open>Evaluating a list of fallible computations from left to right; the first failure is raised.\<close>

fun collect :: "(error + 'a) list \<Rightarrow> error + 'a list" where
  "collect [] = Inr []"
| "collect (Inl e # rs) = Inl e"
| "collect (Inr x # rs) = (case collect rs of Inl e \<Rightarrow> Inl e | Inr xs \<Rightarrow> Inr (x # xs))"

text \<open>
  \<^verbatim>\<open>xs.sort(key=k)\<close>: the key of every element is computed first (an exception of
  the key function leaves the sort), then the elements are sorted by their keys, elements
  with equal keys keeping their order (the sort is stable).
\<close>

definition py_sort_key :: "('a \<Rightarrow> error + int) \<Rightarrow> 'a list \<Rightarrow> error + 'a list" where
  "py_sort_key k xs =
     (case collect (map k xs) of
        Inl e \<Rightarrow> Inl e
      | Inr keys \<Rightarrow> Inr (map snd (sort_key fst (zip keys xs))))"

text \<open>\<^verbatim>\<open>os.path.join(a, b)\<close> on POSIX.\<close>

definition path_join :: "string \<Rightarrow> string \<Rightarrow> string" where
  "path_join a b =
     (if prefix ''/'' b then b
      else if a = [] \<or> suffix ''/'' a then a @ b
      else a @ ''/'' @ b)"

text \<open>
  What the program reaches outside itself: the file system, the image library, the shell,
  the sun calculator and the clock. The loop's iterations are numbered from 0; the sun
  events and the clock depend on the iteration.
\<close>

record 'img env =
  listdir :: "string \<Rightarrow> error + string list"
    \<comment> \<open>\<^verbatim>\<open>os.listdir(folder)\<close>; a missing folder raises\<close>
  expanduser :: "string \<Rightarrow> string"
    \<comment> \<open>\<^verbatim>\<open>os.path.expanduser\<close>\<close>
  image_open :: "string \<Rightarrow> error + 'img"
    \<comment> \<open>\<^verbatim>\<open>Image.open(path).convert('RGBA')\<close>\<close>
  image_blend :: "'img \<Rightarrow> 'img \<Rightarrow> double \<Rightarrow> error + 'img"
    \<comment> \<open>\<^verbatim>\<open>Image.blend\<close>\<close>
  shell_call :: "string \<Rightarrow> string \<Rightarrow> error + unit"
    \<comment> \<open>\<^verbatim>\<open>call(cmd.format(wallpaper_path).split())\<close>\<close>
  sun :: "string \<Rightarrow> nat \<Rightarrow> error + (rat \<times> rat)"
    \<comment> \<open>dawn and dusk of \<^verbatim>\<open>Astral()[city].sun()\<close>, in seconds\<close>
  clock :: "nat \<Rightarrow> rat"
    \<comment> \<open>\<^verbatim>\<open>datetime.now\<close>, in seconds\<close>

definition update_wallpaper :: "'img env \<Rightarrow> string \<Rightarrow> string \<Rightarrow> error + unit" where
  "update_wallpaper env cmd wallpaper_path = shell_call env cmd wallpaper_path"

text \<open>
  \<^verbatim>\<open>
  def init_images(folder, set_cmd=False):
      image_paths = [
          f for f in os.listdir(folder)
          if 'jpeg' in f or 'jpg' in f or 'png' in f
      ]
      image_paths.sort(key=lambda f: int(re.sub(r'[^0-9]*', "", f)))
      if set_cmd:
          full_path = os.path.join( folder, image_paths[int(len(image_paths)/2)])
          update_wallpaper(set_cmd, full_path)
      image_files = [
          Image.open(os.path.join(folder, f)).convert('RGBA')
          for f in image_paths
      ]
      return (image_paths, image_files)
  \<close>
  \<open>set_cmd\<close> is a string, true when it is not empty.
\<close>

definition init_images ::
  "'img env \<Rightarrow> string \<Rightarrow> string \<Rightarrow> error + (string list \<times> 'img list)" where
  "init_images env folder set_cmd =
     (case listdir env folder of
        Inl e \<Rightarrow> Inl e
      | Inr entries \<Rightarrow>
          (case py_sort_key numeric_key (filter is_image_name entries) of
             Inl e \<Rightarrow> Inl e
           | Inr image_paths \<Rightarrow>
               (case (if set_cmd \<noteq> [] then
                        (case py_index image_paths (int (length image_paths) div 2) of
                           Inl e \<Rightarrow> Inl e
                         | Inr p \<Rightarrow> update_wallpaper env set_cmd (path_join folder p))
                      else Inr ()) of
                  Inl e \<Rightarrow> Inl e
                | Inr _ \<Rightarrow>
                    (case collect (map (\<lambda>f. image_open env (path_join folder f)) image_paths) of
                       Inl e \<Rightarrow> Inl e
                     | Inr image_files \<Rightarrow> Inr (image_paths, image_files)))))"

section \<open>Blending and the main loop\<close>

text \<open>
  \<^verbatim>\<open>
  def init_astral(city):
      sun = Astral()[city].sun()
      dawn = sun['dawn']
      dusk = sun['dusk']
      day_length = (dusk - dawn).total_seconds()
      return (dawn, dusk, day_length)
  \<close>
\<close>

definition init_astral :: "'img env \<Rightarrow> string \<Rightarrow> nat \<Rightarrow> error + (rat \<times> rat \<times> rat)" where
  "init_astral env city k =
     (case sun env city k of
        Inl e \<Rightarrow> Inl e
      | Inr (dawn, dusk) \<Rightarrow> Inr (dawn, dusk, total_seconds (dusk - dawn)))"

text \<open>
  \<^verbatim>\<open>
  def blend_images(img1, img2, amount, tmp_path):
      new_img = Image.blend(img1, img2, amount)
      new_img.save(tmp_path, 'PNG', compress_level=1)
  \<close>
  \<^verbatim>\<open>Image.blend\<close> is the first argument, and \<open>amount\<close> is handed to it as it
  is. The files written are a map from paths to images; saving overwrites the entry of
  \<open>tmp_path\<close>.
\<close>

definition blend_images ::
  "('img \<Rightarrow> 'img \<Rightarrow> 'amount \<Rightarrow> error + 'img) \<Rightarrow> (string \<rightharpoonup> 'img)
     \<Rightarrow> 'img \<Rightarrow> 'img \<Rightarrow> 'amount \<Rightarrow> string \<Rightarrow> error + (string \<rightharpoonup> 'img)" where
  "blend_images blend files img1 img2 amount tmp_path =
     (case blend img1 img2 amount of
        Inl e \<Rightarrow> Inl e
      | Inr new_img \<Rightarrow> Inr (files(tmp_path \<mapsto> new_img)))"

text \<open>
  Modelled from the spec: the image library's \<^verbatim>\<open>Image.blend\<close>, which is not part of
  the repository. The spec gives it as the per-pixel linear blend
  \<open>output = imageA * (1 - fraction) + imageB * fraction\<close>. An image is the list of its
  channel values; the two images have the same dimensions.
\<close>

type_synonym image = "rat list"

definition linear_blend :: "image \<Rightarrow> image \<Rightarrow> rat \<Rightarrow> error + image" where
  "linear_blend imageA imageB fraction =
     Inr (map2 (\<lambda>a b. a * (1 - fraction) + b * fraction) imageA imageB)"

text \<open>The command line arguments of the argument parser.\<close>

record args =
  city :: string
  folder :: string
  rate :: int
  temp :: string
  dusk_id :: int
  command :: string

text \<open>\<^verbatim>\<open>time.sleep(secs)\<close> raises ValueError on a negative length.\<close>

definition py_sleep :: "int \<Rightarrow> error + unit" where
  "py_sleep secs = (if secs < 0 then Inl ValueError else Inr ())"

text \<open>
  One iteration of the loop of \<^verbatim>\<open>main\<close>, the \<open>k\<close>-th:
  \<^verbatim>\<open>
      dawn_time, dusk_time, day_length = init_astral(args.city)
      blend_images(
          *get_current_images(dawn_time, day_length, images, args.dusk_id),
          args.temp
      )
      update_wallpaper(args.command, args.temp)
      sleep(60 * args.rate)
  \<close>
\<close>

definition tick ::
  "'img env \<Rightarrow> args \<Rightarrow> 'img list \<Rightarrow> (string \<rightharpoonup> 'img) \<Rightarrow> nat \<Rightarrow> error + (string \<rightharpoonup> 'img)" where
  "tick env a images files k =
     (case init_astral env (city a) k of
        Inl e \<Rightarrow> Inl e
      | Inr (dawn_time, dusk_time, day_length) \<Rightarrow>
          (case get_current_images (clock env k) dawn_time day_length images (dusk_id a) of
             Inl e \<Rightarrow> Inl e
           | Inr (img1, img2, amount) \<Rightarrow>
               (case blend_images (image_blend env) files img1 img2 amount (temp a) of
                  Inl e \<Rightarrow> Inl e
                | Inr files' \<Rightarrow>
                    (case update_wallpaper env (command a) (temp a) of
                       Inl e \<Rightarrow> Inl e
                     | Inr _ \<Rightarrow>
                         (case py_sleep (60 * rate a) of
                            Inl e \<Rightarrow> Inl e
                          | Inr _ \<Rightarrow> Inr files')))))"

text \<open>
  The run of \<^verbatim>\<open>main\<close>: it fails at startup, before the loop, or in the \<open>k\<close>-th
  iteration of the loop, or it is still looping when the fuel (a number of iterations)
  is used up. The loop \<^verbatim>\<open>while True\<close> has no exit of its own.
\<close>

datatype outcome = StartupFailed error | TickFailed nat error | Looping

fun main_loop ::
  "'img env \<Rightarrow> args \<Rightarrow> 'img list \<Rightarrow> (string \<rightharpoonup> 'img) \<Rightarrow> nat \<Rightarrow> nat \<Rightarrow> outcome" where
  "main_loop env a images files k 0 = Looping"
| "main_loop env a images files k (Suc fuel) =
     (case tick env a images files k of
        Inl e \<Rightarrow> TickFailed k e
      | Inr files' \<Rightarrow> main_loop env a images files' (Suc k) fuel)"

text \<open>
  \<^verbatim>\<open>
  def main(args):
      path = os.path.expanduser(args.folder)
      image_paths, images = init_images(path, set_cmd=args.command)
      while True:
          ...
  \<close>
\<close>

definition main :: "'img env \<Rightarrow> args \<Rightarrow> (string \<rightharpoonup> 'img) \<Rightarrow> nat \<Rightarrow> outcome" where
  "main env a files fuel =
     (let path = expanduser env (folder a) in
      case init_images env path (command a) of
        Inl e \<Rightarrow> StartupFailed e
      | Inr (image_paths, images) \<Rightarrow> main_loop env a images files 0 fuel)"

text \<open>
  A small environment for evaluating the program on examples: the folder lists
  \<open>entries\<close>, an image is opened as its path, blending gives the first image, every
  command succeeds, dawn is at 08:00 and dusk at 18:00, and the clock stands at 12:00.
\<close>

definition sample_env :: "string list \<Rightarrow> string env" where
  "sample_env entries =
     \<lparr>listdir = (\<lambda>_. Inr entries), expanduser = (\<lambda>p. p), image_open = Inr,
      image_blend = (\<lambda>img1 img2 amount. Inr img1), shell_call = (\<lambda>_ _. Inr ()),
      sun = (\<lambda>_ _. Inr (28800, 64800)), clock = (\<lambda>_. 43200)\<rparr>"

definition sample_args :: "string \<Rightarrow> args" where
  "sample_args cmd =
     \<lparr>city = ''Rome'', folder = ''wallpapers'', rate = 10, temp = ''/tmp/wallpaper.png'',
      dusk_id = 13, command = cmd\<rparr>"

section \<open>Properties of the floats\<close>

text \<open>
  The binary exponent is what its name says, rounding is monotone and keeps the doubles
  as they are, and the integers up to \<open>2 ^ 53\<close> are doubles.
\<close>

lemma pow2_pos [simp]: "0 < (2 :: rat) powi k"
  by (simp add: zero_less_power_int)

lemma pow2_add: "(2 :: rat) powi (m + n) = 2 powi m * 2 powi n"
  by (simp add: power_int_add)

lemma pow2_diff: "(2 :: rat) powi (m - n) = 2 powi m / 2 powi n"
  by (simp add: power_int_diff)

lemma pow2_mono: "m \<le> n \<Longrightarrow> (2 :: rat) powi m \<le> 2 powi n"
  by (simp add: power_int_increasing)

lemma pow2_strict_mono: "m < n \<Longrightarrow> (2 :: rat) powi m < 2 powi n"
  by (simp add: power_int_strict_increasing)

lemma pow2_less_iff: "(2 :: rat) powi m < 2 powi n \<longleftrightarrow> m < n"
  by (metis pow2_mono pow2_strict_mono linorder_not_less)

lemma pow2_le_iff: "(2 :: rat) powi m \<le> 2 powi n \<longleftrightarrow> m \<le> n"
  by (metis pow2_mono pow2_strict_mono linorder_not_less)

lemma bitlen_pow2_bounds:
  assumes "0 < a"
  shows "(2 :: rat) powi (bitlen a - 1) \<le> of_int a" and "of_int a < (2 :: rat) powi bitlen a"
proof -
  from assms have b: "2 ^ nat (bitlen a - 1) \<le> a" "a < 2 ^ nat (bitlen a)"
    using bitlen_bounds [of a] by simp_all
  from assms have pos: "1 \<le> bitlen a"
    using bitlen_eq_zero_iff [of a] bitlen_nonneg [of a] by linarith
  have "(2 :: rat) powi (bitlen a - 1) = of_int (2 ^ nat (bitlen a - 1))"
    using pos by (simp add: power_int_def)
  also have "\<dots> \<le> of_int a" using b(1) by (simp only: of_int_le_iff)
  finally show "(2 :: rat) powi (bitlen a - 1) \<le> of_int a" .
  have "(of_int a :: rat) < of_int (2 ^ nat (bitlen a))"
    using b(2) by (simp only: of_int_less_iff)
  also have "\<dots> = 2 powi bitlen a"
    using pos by (simp add: power_int_def)
  finally show "of_int a < (2 :: rat) powi bitlen a" .
qed

lemma ilog2_bounds:
  assumes "0 < x"
  shows "2 powi ilog2 x \<le> x" and "x < 2 powi (ilog2 x + 1)"
proof -
  obtain a b where q: "quotient_of x = (a, b)" by (cases "quotient_of x")
  then have x: "x = of_int a / of_int b" and b: "0 < b"
    by (simp_all add: quotient_of_div quotient_of_denom_pos)
  from assms x b have a: "0 < a" by (simp add: zero_less_divide_iff)
  define k where "k = bitlen a - bitlen b"
  note ba = bitlen_pow2_bounds [OF a] and bb = bitlen_pow2_bounds [OF b]
  have bpos: "(0 :: rat) < of_int b" using b by simp
  have "x < 2 powi bitlen a / of_int b"
    unfolding x using ba(2) bpos by (simp add: divide_strict_right_mono)
  also have "\<dots> \<le> 2 powi bitlen a / 2 powi (bitlen b - 1)"
    using bb(1) bpos by (intro divide_left_mono) (simp_all add: less_imp_le)
  also have "\<dots> = 2 powi (bitlen a - (bitlen b - 1))"
    by (simp only: pow2_diff)
  also have "bitlen a - (bitlen b - 1) = k + 1"
    by (simp add: k_def)
  finally have up: "x < 2 powi (k + 1)" .
  have "k - 1 = (bitlen a - 1) - bitlen b"
    by (simp add: k_def)
  then have "(2 :: rat) powi (k - 1) = 2 powi (bitlen a - 1) / 2 powi bitlen b"
    by (simp only: pow2_diff)
  also have "\<dots> \<le> of_int a / 2 powi bitlen b"
    using ba(1) by (simp add: divide_right_mono)
  also have "\<dots> < of_int a / of_int b"
    using bb(2) a bpos by (intro divide_strict_left_mono) simp_all
  finally have lo: "2 powi (k - 1) < x" by (simp add: x)
  have il: "ilog2 x = (if 2 powi k \<le> x then k else k - 1)"
    by (simp add: ilog2_def q k_def Let_def)
  show "2 powi ilog2 x \<le> x" using lo by (simp add: il)
  show "x < 2 powi (ilog2 x + 1)" using up by (simp add: il)
qed

lemma ilog2_unique:
  assumes "0 < x" and "2 powi k \<le> x" and "x < 2 powi (k + 1)"
  shows "ilog2 x = k"
proof -
  note b = ilog2_bounds [OF assms(1)]
  from b(1) assms(3) have "(2 :: rat) powi ilog2 x < 2 powi (k + 1)" by simp
  then have "ilog2 x < k + 1" by (simp only: pow2_less_iff)
  moreover from assms(2) b(2) have "(2 :: rat) powi k < 2 powi (ilog2 x + 1)" by simp
  then have "k < ilog2 x + 1" by (simp only: pow2_less_iff)
  ultimately show ?thesis by simp
qed

lemma ilog2_mono:
  assumes "0 < x" and "x \<le> y"
  shows "ilog2 x \<le> ilog2 y"
proof -
  from assms have y: "0 < y" by simp
  have "2 powi ilog2 x \<le> x" using assms(1) by (rule ilog2_bounds)
  also have "\<dots> \<le> y" by fact
  also have "\<dots> < 2 powi (ilog2 y + 1)" using y by (rule ilog2_bounds)
  finally have "ilog2 x < ilog2 y + 1" by (simp only: pow2_less_iff)
  then show ?thesis by simp
qed

lemma ilog2_pow2 [simp]: "ilog2 (2 powi k) = k"
  by (rule ilog2_unique) (simp_all add: pow2_strict_mono)

lemma ilog2_less_iff: "0 < x \<Longrightarrow> ilog2 x < k \<longleftrightarrow> x < 2 powi k"
proof
  assume "0 < x" "ilog2 x < k"
  then have "ilog2 x + 1 \<le> k" by simp
  then have "(2 :: rat) powi (ilog2 x + 1) \<le> 2 powi k" by (rule pow2_mono)
  with ilog2_bounds(2) [OF \<open>0 < x\<close>] show "x < 2 powi k" by simp
next
  assume "0 < x" "x < 2 powi k"
  with ilog2_bounds(1) [of x] have "(2 :: rat) powi ilog2 x < 2 powi k" by simp
  then show "ilog2 x < k" by (simp only: pow2_less_iff)
qed

lemma round_half_even_of_int [simp]: "round_half_even (of_int n) = n"
  by (simp add: round_half_even_def)

lemma round_half_even_floor: "\<lfloor>q\<rfloor> \<le> round_half_even q" "round_half_even q \<le> \<lfloor>q\<rfloor> + 1"
  by (simp_all add: round_half_even_def Let_def)

lemma round_half_even_mono:
  assumes "q \<le> r"
  shows "round_half_even q \<le> round_half_even r"
proof -
  from assms have fl: "\<lfloor>q\<rfloor> \<le> \<lfloor>r\<rfloor>" by (rule floor_mono)
  show ?thesis
  proof (cases "\<lfloor>q\<rfloor> < \<lfloor>r\<rfloor>")
    case True
    have "round_half_even q \<le> \<lfloor>q\<rfloor> + 1" by (rule round_half_even_floor)
    also have "\<dots> \<le> \<lfloor>r\<rfloor>" using True by simp
    also have "\<dots> \<le> round_half_even r" by (rule round_half_even_floor)
    finally show ?thesis .
  next
    case False
    with fl have eq: "\<lfloor>q\<rfloor> = \<lfloor>r\<rfloor>" by simp
    with assms have "q - of_int \<lfloor>r\<rfloor> \<le> r - of_int \<lfloor>r\<rfloor>" by simp
    then show ?thesis
      by (auto simp: round_half_even_def Let_def eq)
  qed
qed

lemma round_half_even_ge: "of_int n \<le> q \<Longrightarrow> n \<le> round_half_even q"
  using round_half_even_mono [of "of_int n" q] by simp

lemma round_half_even_le: "q \<le> of_int n \<Longrightarrow> round_half_even q \<le> n"
  using round_half_even_mono [of q "of_int n"] by simp

lemma round_half_even_minus: "round_half_even (- q) = - round_half_even q"
proof (cases "q = of_int \<lfloor>q\<rfloor>")
  case True
  then obtain n where "q = of_int n" ..
  then have "- q = of_int (- n)" by simp
  then show ?thesis unfolding \<open>q = of_int n\<close> by (simp only: round_half_even_of_int)
next
  case False
  then have lt: "of_int \<lfloor>q\<rfloor> < q" using of_int_floor_le [of q] by linarith
  have fl: "\<lfloor>- q\<rfloor> = - \<lfloor>q\<rfloor> - 1"
  proof (rule floor_unique)
    show "of_int (- \<lfloor>q\<rfloor> - 1) \<le> - q"
      using floor_correct [of q] by simp
    show "- q < of_int (- \<lfloor>q\<rfloor> - 1) + 1"
      using lt by simp
  qed
  define n where "n = \<lfloor>q\<rfloor>"
  define f where "f = q - of_int n"
  have f: "0 < f" "f < 1" using lt floor_correct [of q] by (simp_all add: f_def n_def)
  have a: "round_half_even q =
      (if f < 1 / 2 then n else if 1 / 2 < f then n + 1 else if even n then n else n + 1)"
    by (simp add: round_half_even_def Let_def f_def n_def)
  have "- q - of_int (- n - 1) = 1 - f" by (simp add: f_def)
  then have b: "round_half_even (- q) =
      (if 1 - f < 1 / 2 then - n - 1 else if 1 / 2 < 1 - f then - n
       else if even (- n - 1) then - n - 1 else - n)"
    by (simp add: round_half_even_def Let_def fl n_def [symmetric])
  show ?thesis
    unfolding a b using f by auto
qed

lemma ulp_exponent_minus [simp]: "ulp_exponent (- x) = ulp_exponent x"
  by (simp add: ulp_exponent_def)

lemma round_double_minus: "round_double (- x) = - round_double x"
  by (simp add: round_double_def Let_def round_half_even_minus)

lemma round_double_zero [simp]: "round_double 0 = 0"
  by (simp add: round_double_def)

lemma round_double_nonneg: "0 \<le> x \<Longrightarrow> 0 \<le> round_double x"
proof -
  assume "0 \<le> x"
  then have "0 \<le> x / 2 powi ulp_exponent x" by simp
  then have "0 \<le> round_half_even (x / 2 powi ulp_exponent x)"
    using round_half_even_ge [of 0] by simp
  then show ?thesis by (simp add: round_double_def Let_def)
qed

lemma round_double_nonpos: "x \<le> 0 \<Longrightarrow> round_double x \<le> 0"
  using round_double_nonneg [of "- x"] by (simp add: round_double_minus)

lemma ulp_exponent_bounds:
  assumes "x \<noteq> 0"
  shows "\<bar>x\<bar> < 2 powi (ulp_exponent x + 53)"
    and "- 1074 \<le> ulp_exponent x"
    and "ulp_exponent x = - 1074 \<or> 2 powi (ulp_exponent x + 52) \<le> \<bar>x\<bar>"
proof -
  from assms have pos: "0 < \<bar>x\<bar>" by simp
  note b = ilog2_bounds [OF pos]
  have "ilog2 \<bar>x\<bar> + 1 \<le> ulp_exponent x + 53" by (simp add: ulp_exponent_def)
  then have "(2 :: rat) powi (ilog2 \<bar>x\<bar> + 1) \<le> 2 powi (ulp_exponent x + 53)" by (rule pow2_mono)
  with b(2) show "\<bar>x\<bar> < 2 powi (ulp_exponent x + 53)" by simp
  show "- 1074 \<le> ulp_exponent x" by (simp add: ulp_exponent_def)
  show "ulp_exponent x = - 1074 \<or> 2 powi (ulp_exponent x + 52) \<le> \<bar>x\<bar>"
  proof (cases "ulp_exponent x = - 1074")
    case False
    then have "ulp_exponent x = ilog2 \<bar>x\<bar> - 52" by (simp add: ulp_exponent_def max_def split: if_splits)
    then have "ulp_exponent x + 52 = ilog2 \<bar>x\<bar>" by simp
    with b(1) show ?thesis by simp
  qed simp
qed

lemma ulp_exponent_mono:
  assumes "0 < x" and "x \<le> y"
  shows "ulp_exponent x \<le> ulp_exponent y"
proof -
  from assms have "ilog2 \<bar>x\<bar> \<le> ilog2 \<bar>y\<bar>" by (intro ilog2_mono) simp_all
  then show ?thesis by (simp add: ulp_exponent_def)
qed

lemma round_double_mono_pos:
  assumes "0 < x" and "x \<le> y"
  shows "round_double x \<le> round_double y"
proof -
  from assms have y: "0 < y" by simp
  define ex where "ex = ulp_exponent x"
  define ey where "ey = ulp_exponent y"
  have rx: "round_double x = of_int (round_half_even (x / 2 powi ex)) * 2 powi ex"
    using assms(1) by (simp add: round_double_def ex_def Let_def)
  have ry: "round_double y = of_int (round_half_even (y / 2 powi ey)) * 2 powi ey"
    using y by (simp add: round_double_def ey_def Let_def)
  have le: "ex \<le> ey" unfolding ex_def ey_def using assms by (rule ulp_exponent_mono)
  show ?thesis
  proof (cases "ex = ey")
    case True
    from assms(2) have "x / 2 powi ey \<le> y / 2 powi ey"
      by (simp add: divide_right_mono)
    then have "round_half_even (x / 2 powi ey) \<le> round_half_even (y / 2 powi ey)"
      by (rule round_half_even_mono)
    then show ?thesis by (simp add: rx ry True)
  next
    case False
    with le have lt: "ex + 1 \<le> ey" by simp
    then have "ey \<noteq> - 1074"
      using ulp_exponent_bounds(2) [of x] assms(1) by (simp add: ex_def)
    then have "2 powi (ey + 52) \<le> \<bar>y\<bar>"
      using ulp_exponent_bounds(3) [of y] y by (simp add: ey_def)
    then have "2 powi (ey + 52) \<le> y" using y by simp
    then have "2 powi 52 * 2 powi ey \<le> y" by (simp add: pow2_add mult.commute)
    then have "(2 :: rat) powi 52 \<le> y / 2 powi ey" by (simp add: pos_le_divide_eq)
    moreover have "(2 :: rat) powi 52 = of_int (2 ^ 52)" by simp
    ultimately have "of_int (2 ^ 52) \<le> y / 2 powi ey" by simp
    then have "2 ^ 52 \<le> round_half_even (y / 2 powi ey)" by (rule round_half_even_ge)
    then have "(of_int (2 ^ 52) :: rat) \<le> of_int (round_half_even (y / 2 powi ey))"
      by (simp only: of_int_le_iff)
    then have "of_int (2 ^ 52) * 2 powi ey \<le> round_double y"
      by (simp add: ry mult_right_mono)
    then have lo: "2 powi (ey + 52) \<le> round_double y"
      by (simp add: pow2_add mult.commute)
    have "\<bar>x\<bar> < 2 powi (ex + 53)"
      using ulp_exponent_bounds(1) [of x] assms(1) by (simp add: ex_def)
    then have "x < 2 powi 53 * 2 powi ex" using assms(1) by (simp add: pow2_add mult.commute)
    then have "x / 2 powi ex < 2 powi 53" by (simp add: pos_divide_less_eq)
    moreover have "(2 :: rat) powi 53 = of_int (2 ^ 53)" by simp
    ultimately have "x / 2 powi ex \<le> of_int (2 ^ 53)" by simp
    then have "round_half_even (x / 2 powi ex) \<le> 2 ^ 53" by (rule round_half_even_le)
    then have "(of_int (round_half_even (x / 2 powi ex)) :: rat) \<le> of_int (2 ^ 53)"
      by (simp only: of_int_le_iff)
    then have "round_double x \<le> of_int (2 ^ 53) * 2 powi ex"
      by (simp add: rx mult_right_mono)
    then have "round_double x \<le> 2 powi (ex + 53)"
      by (simp add: pow2_add mult.commute)
    also have "\<dots> \<le> 2 powi (ey + 52)" using lt by (intro pow2_mono) simp
    also note lo
    finally show ?thesis .
  qed
qed

lemma round_double_mono:
  assumes "x \<le> y"
  shows "round_double x \<le> round_double y"
proof -
  consider "0 < x" | "x \<le> 0" "0 \<le> y" | "y < 0" by linarith
  then show ?thesis
  proof cases
    case 1
    then show ?thesis using assms by (rule round_double_mono_pos)
  next
    case 2
    then have "round_double x \<le> 0" "0 \<le> round_double y"
      by (simp_all add: round_double_nonpos round_double_nonneg)
    then show ?thesis by simp
  next
    case 3
    with assms have "0 < - y" "- y \<le> - x" by simp_all
    then have "round_double (- y) \<le> round_double (- x)" by (rule round_double_mono_pos)
    then show ?thesis by (simp add: round_double_minus)
  qed
qed

lemma round_double_exact:
  assumes x: "x = of_int m * 2 powi e" and m: "\<bar>m\<bar> < 2 ^ 53" and e: "- 1074 \<le> e"
  shows "round_double x = x"
proof (cases "x = 0")
  case True
  then show ?thesis by simp
next
  case False
  define u where "u = ulp_exponent x"
  have "\<bar>x\<bar> = of_int \<bar>m\<bar> * 2 powi e" by (simp add: x abs_mult)
  also have "\<dots> < of_int (2 ^ 53) * 2 powi e"
    using m by (intro mult_strict_right_mono) (simp_all only: of_int_less_iff pow2_pos)
  also have "\<dots> = 2 powi (e + 53)" by (simp add: pow2_add mult.commute)
  finally have "ilog2 \<bar>x\<bar> < e + 53" using False by (simp add: ilog2_less_iff)
  with e have ue: "u \<le> e" by (simp add: u_def ulp_exponent_def)
  then have "(2 :: rat) powi (e - u) = of_int (2 ^ nat (e - u))"
    by (simp add: power_int_def)
  moreover have "x / 2 powi u = of_int m * (2 powi e / 2 powi u)"
    by (simp add: x)
  ultimately have "x / 2 powi u = of_int (m * 2 ^ nat (e - u))"
    by (simp add: pow2_diff [symmetric])
  then have "round_half_even (x / 2 powi u) = m * 2 ^ nat (e - u)"
    by (simp only: round_half_even_of_int)
  then have "round_double x = of_int (m * 2 ^ nat (e - u)) * 2 powi u"
    using False by (simp add: round_double_def Let_def u_def)
  also have "\<dots> = (x / 2 powi u) * 2 powi u"
    using \<open>x / 2 powi u = of_int (m * 2 ^ nat (e - u))\<close> by simp
  also have "\<dots> = x" by simp
  finally show ?thesis .
qed

lemma is_doubleI:
  "x = of_int m * 2 powi e \<Longrightarrow> \<bar>m\<bar> < 2 ^ 53 \<Longrightarrow> - 1074 \<le> e \<Longrightarrow> is_double x"
  unfolding is_double_def by (rule round_double_exact)

lemma round_double_decomp:
  "\<exists>m e. round_double x = of_int m * 2 powi e \<and> \<bar>m\<bar> < 2 ^ 53 \<and> - 1074 \<le> e"
proof (cases "x = 0")
  case True
  have "round_double x = of_int 0 * 2 powi 0" using True by simp
  then show ?thesis by (intro exI [of _ 0] exI [of _ "0 :: int"]) simp
next
  case False
  define u where "u = ulp_exponent x"
  define M where "M = round_half_even (x / 2 powi u)"
  have r: "round_double x = of_int M * 2 powi u"
    using False by (simp add: round_double_def Let_def u_def M_def)
  have u: "- 1074 \<le> u" using ulp_exponent_bounds(2) [OF False] by (simp add: u_def)
  have "\<bar>x\<bar> < 2 powi (u + 53)" using ulp_exponent_bounds(1) [OF False] by (simp add: u_def)
  then have "\<bar>x\<bar> < 2 powi 53 * 2 powi u" by (simp add: pow2_add mult.commute)
  then have "\<bar>x\<bar> / 2 powi u < 2 powi 53" by (simp add: pos_divide_less_eq)
  moreover have "\<bar>x / 2 powi u\<bar> = \<bar>x\<bar> / 2 powi u"
    by (simp add: abs_divide)
  ultimately have ax: "\<bar>x / 2 powi u\<bar> < of_int (2 ^ 53)" by simp
  then have "x / 2 powi u \<le> of_int (2 ^ 53)" "of_int (- (2 ^ 53)) \<le> x / 2 powi u"
    unfolding abs_less_iff by simp_all
  then have "M \<le> 2 ^ 53" "- (2 ^ 53) \<le> M"
    unfolding M_def by (simp_all only: round_half_even_le round_half_even_ge)
  then have Mb: "\<bar>M\<bar> \<le> 2 ^ 53" by simp
  show ?thesis
  proof (cases "\<bar>M\<bar> < 2 ^ 53")
    case True
    with r u show ?thesis by blast
  next
    case False
    with Mb have "\<bar>M\<bar> = 2 ^ 53" by simp
    then consider "M = 2 ^ 53" | "M = - (2 ^ 53)" by (auto simp: abs_if split: if_splits)
    then show ?thesis
    proof cases
      case 1
      have "round_double x = of_int (2 ^ 52) * 2 powi (u + 1)"
        by (simp add: r 1 pow2_add)
      moreover have "\<bar>2 ^ 52 :: int\<bar> < 2 ^ 53" by simp
      moreover have "- 1074 \<le> u + 1" using u by simp
      ultimately show ?thesis by blast
    next
      case 2
      have "round_double x = of_int (- (2 ^ 52)) * 2 powi (u + 1)"
        by (simp add: r 2 pow2_add)
      moreover have "\<bar>- (2 ^ 52) :: int\<bar> < 2 ^ 53" by simp
      moreover have "- 1074 \<le> u + 1" using u by simp
      ultimately show ?thesis by blast
    qed
  qed
qed

lemma is_double_round_double [simp]: "is_double (round_double x)"
proof -
  from round_double_decomp [of x] obtain m e
    where "round_double x = of_int m * 2 powi e" "\<bar>m\<bar> < 2 ^ 53" "- 1074 \<le> e"
    by blast
  then show ?thesis by (rule is_doubleI)
qed

lemma is_doubleE:
  assumes "is_double x"
  obtains m e where "x = of_int m * 2 powi e" "\<bar>m\<bar> < 2 ^ 53" "- 1074 \<le> e"
  using round_double_decomp [of x] assms unfolding is_double_def by auto

lemma is_double_of_int: "\<bar>n\<bar> \<le> 2 ^ 53 \<Longrightarrow> is_double (of_int n)"
proof (cases "\<bar>n\<bar> < 2 ^ 53")
  case True
  have "of_int n = (of_int n :: rat) * 2 powi 0" by simp
  then show ?thesis using True by (rule is_doubleI) simp
next
  case False
  assume "\<bar>n\<bar> \<le> 2 ^ 53"
  with False have "\<bar>n\<bar> = 2 ^ 53" by simp
  then consider "n = 2 ^ 53" | "n = - (2 ^ 53)" by (auto simp: abs_if split: if_splits)
  then show ?thesis
  proof cases
    case 1
    have "(of_int n :: rat) = of_int (2 ^ 52) * 2 powi 1" by (simp add: 1)
    then show ?thesis by (rule is_doubleI) simp_all
  next
    case 2
    have "(of_int n :: rat) = of_int (- (2 ^ 52)) * 2 powi 1" by (simp add: 2)
    then show ?thesis by (rule is_doubleI) simp_all
  qed
qed

lemma is_double_floor_frac:
  assumes d: "is_double p" and nn: "0 \<le> p"
  shows "is_double (of_int \<lfloor>p\<rfloor>)" and "is_double (p - of_int \<lfloor>p\<rfloor>)"
proof -
  from d obtain m e where p: "p = of_int m * 2 powi e" and m: "\<bar>m\<bar> < 2 ^ 53" and e: "- 1074 \<le> e"
    by (rule is_doubleE)
  have "\<not> (2 :: rat) powi e \<le> 0" using pow2_pos [of e] by (simp only: not_le)
  with nn have m0: "0 \<le> m"
    unfolding p by (simp add: zero_le_mult_iff)
  have "is_double (of_int \<lfloor>p\<rfloor>) \<and> is_double (p - of_int \<lfloor>p\<rfloor>)"
  proof (cases "0 \<le> e")
    case True
    then have "(2 :: rat) powi e = of_int (2 ^ nat e)" by (simp add: power_int_def)
    then have "p = of_int (m * 2 ^ nat e)" by (simp add: p)
    then have "\<lfloor>p\<rfloor> = m * 2 ^ nat e" by (simp only: floor_of_int)
    with \<open>p = of_int (m * 2 ^ nat e)\<close> have fl: "of_int \<lfloor>p\<rfloor> = p" by simp
    have "is_double (0 :: rat)" by (simp add: is_double_def)
    with d show ?thesis by (simp add: fl)
  next
    case False
    define s :: int where "s = 2 ^ nat (- e)"
    have s: "0 < s" by (simp add: s_def)
    from False have pw: "(2 :: rat) powi e = 1 / of_int s"
      by (simp add: power_int_def s_def inverse_eq_divide power_inverse [symmetric] field_simps)
    have pq: "p = of_int m / of_int s" by (simp add: p pw)
    have fl: "\<lfloor>p\<rfloor> = m div s" unfolding pq by (rule floor_divide_of_int_eq)
    have "m div s \<le> m" using zdiv_mono2 [of m 1 s] m0 s by simp
    moreover have "0 \<le> m div s" using m0 s by (simp add: pos_imp_zdiv_nonneg_iff)
    ultimately have "\<bar>m div s\<bar> \<le> 2 ^ 53" using m by simp
    then have a: "is_double (of_int \<lfloor>p\<rfloor>)" unfolding fl by (rule is_double_of_int)
    have "of_int m = (of_int (m mod s + s * (m div s)) :: rat)" by simp
    then have dm: "(of_int m :: rat) = of_int (m mod s) + of_int s * of_int (m div s)"
      by (simp only: of_int_add of_int_mult)
    have "p - of_int (m div s) = of_int (m mod s) / of_int s"
      using s unfolding pq by (simp add: field_simps dm)
    then have fr: "p - of_int \<lfloor>p\<rfloor> = of_int (m mod s) * 2 powi e"
      by (simp add: fl pw)
    have "0 \<le> m mod s" using s by simp
    moreover have "m mod s \<le> m" using m0 s by (simp add: zmod_le_nonneg_dividend)
    ultimately have "\<bar>m mod s\<bar> < 2 ^ 53" using m by simp
    with fr have b: "is_double (p - of_int \<lfloor>p\<rfloor>)" using e by (rule is_doubleI)
    from a b show ?thesis ..
  qed
  then show "is_double (of_int \<lfloor>p\<rfloor>)" and "is_double (p - of_int \<lfloor>p\<rfloor>)" by simp_all
qed

text \<open>The overflow check against \<open>2 ^ 1024\<close>, and the conversion of an int.\<close>

lemma double_limit_pos: "0 < double_limit"
  by (simp only: double_limit_def pow2_pos)

lemma overflow_iff:
  assumes "r \<noteq> 0"
  shows "1024 \<le> ilog2 \<bar>r\<bar> \<longleftrightarrow> double_limit \<le> \<bar>r\<bar>"
proof -
  from assms have "0 < \<bar>r\<bar>" by simp
  then have "ilog2 \<bar>r\<bar> < 1024 \<longleftrightarrow> \<bar>r\<bar> < double_limit"
    unfolding double_limit_def by (rule ilog2_less_iff)
  then show ?thesis by auto
qed

lemma to_double_unfold:
  "to_double x =
     (if double_limit \<le> round_double x then PlusInf
      else if round_double x \<le> - double_limit then MinusInf
      else Finite (round_double x))"
proof (cases "round_double x = 0")
  case True
  have "\<not> double_limit \<le> 0" using double_limit_pos by (simp only: not_le)
  with True show ?thesis by (simp add: to_double_def)
next
  case False
  define r where "r = round_double x"
  from False have ov: "1024 \<le> ilog2 \<bar>r\<bar> \<longleftrightarrow> double_limit \<le> \<bar>r\<bar>"
    unfolding r_def by (rule overflow_iff)
  have td: "to_double x =
      (if r \<noteq> 0 \<and> double_limit \<le> \<bar>r\<bar> then (if 0 < r then PlusInf else MinusInf)
       else Finite r)"
    by (simp add: to_double_def Let_def r_def [symmetric] ov)
  note pos = double_limit_pos
  consider "double_limit \<le> r" | "r \<le> - double_limit" | "- double_limit < r" "r < double_limit"
    by linarith
  then have "to_double x =
     (if double_limit \<le> r then PlusInf
      else if r \<le> - double_limit then MinusInf
      else Finite r)"
  proof cases
    case 1
    with pos have "0 < r" "r \<noteq> 0" "double_limit \<le> \<bar>r\<bar>" by linarith+
    with 1 show ?thesis by (simp add: td)
  next
    case 2
    with pos have "\<not> 0 < r" "r \<noteq> 0" "double_limit \<le> \<bar>r\<bar>" "\<not> double_limit \<le> r"
      by linarith+
    with 2 show ?thesis by (simp add: td)
  next
    case 3
    then have "\<not> double_limit \<le> \<bar>r\<bar>" "\<not> double_limit \<le> r" "\<not> r \<le> - double_limit"
      by linarith+
    then show ?thesis by (simp add: td)
  qed
  then show ?thesis by (simp only: r_def)
qed

lemma to_double_Finite_iff:
  "to_double x = Finite r \<longleftrightarrow> r = round_double x \<and> \<bar>r\<bar> < double_limit"
proof -
  have "\<bar>round_double x\<bar> < double_limit \<longleftrightarrow>
      \<not> double_limit \<le> round_double x \<and> \<not> round_double x \<le> - double_limit"
    by linarith
  then show ?thesis unfolding to_double_unfold by auto
qed

lemma to_double_PlusInf_iff: "to_double x = PlusInf \<longleftrightarrow> double_limit \<le> round_double x"
  unfolding to_double_unfold by simp

lemma to_double_MinusInf_iff: "to_double x = MinusInf \<longleftrightarrow> round_double x \<le> - double_limit"
proof -
  have "\<not> (double_limit \<le> round_double x \<and> round_double x \<le> - double_limit)"
    using double_limit_pos by linarith
  then show ?thesis unfolding to_double_unfold by auto
qed

lemma to_double_mono:
  assumes "x \<le> y"
  shows "double_le (to_double x) (to_double y)"
proof -
  from assms have le: "round_double x \<le> round_double y" by (rule round_double_mono)
  show ?thesis
  proof (cases "to_double x")
    case (Finite r)
    then have r: "r = round_double x" "\<bar>r\<bar> < double_limit"
      unfolding to_double_Finite_iff by blast+
    show ?thesis
    proof (cases "to_double y")
      case (Finite s)
      then have "s = round_double y" unfolding to_double_Finite_iff by blast
      with r le Finite \<open>to_double x = Finite r\<close> show ?thesis by simp
    next
      case PlusInf
      with \<open>to_double x = Finite r\<close> show ?thesis by simp
    next
      case MinusInf
      then have "round_double y \<le> - (double_limit)" by (simp add: to_double_MinusInf_iff)
      with le r have False unfolding abs_less_iff by linarith
      then show ?thesis ..
    qed
  next
    case PlusInf
    then have "double_limit \<le> round_double x" by (simp add: to_double_PlusInf_iff)
    with le have "double_limit \<le> round_double y" by simp
    then have "to_double y = PlusInf" by (simp add: to_double_PlusInf_iff)
    with PlusInf show ?thesis by simp
  next
    case MinusInf
    then show ?thesis by simp
  qed
qed

lemma to_double_is_double: "to_double x = Finite r \<Longrightarrow> is_double r"
  unfolding to_double_Finite_iff by simp

lemma to_double_exact:
  assumes "is_double x" and "\<bar>x\<bar> < double_limit"
  shows "to_double x = Finite x"
proof -
  from assms(1) have "x = round_double x" by (simp add: is_double_def)
  with assms(2) show ?thesis by (simp only: to_double_Finite_iff) 
qed

lemma to_double_nonneg: "0 \<le> x \<Longrightarrow> double_le (Finite 0) (to_double x)"
  using to_double_mono [of 0 x] by (simp add: to_double_def)

lemma to_double_nonpos: "x \<le> 0 \<Longrightarrow> double_le (to_double x) (Finite 0)"
  using to_double_mono [of x 0] by (simp add: to_double_def)

lemma double_le_refl [simp]: "double_le a a"
  by (cases a) simp_all

lemma double_le_trans: "double_le a b \<Longrightarrow> double_le b c \<Longrightarrow> double_le a c"
  by (cases a; cases b; cases c) simp_all

lemma float_of_int_Inr:
  assumes "float_of_int n = Inr d"
  shows "d = round_double (of_int n)" and "\<bar>d\<bar> < double_limit"
proof -
  from assms have "to_double (of_int n) = Finite d"
    by (auto simp: float_of_int_def split: double.splits)
  then show "d = round_double (of_int n)" and "\<bar>d\<bar> < double_limit"
    unfolding to_double_Finite_iff by blast+
qed

lemma float_of_int_nonneg: "0 \<le> n \<Longrightarrow> float_of_int n = Inr d \<Longrightarrow> 0 \<le> d"
  using float_of_int_Inr(1) [of n d] round_double_nonneg [of "of_int n"] by simp

lemma float_of_int_exact:
  assumes "is_double (of_int n)" and "\<bar>of_int n :: rat\<bar> < double_limit"
  shows "float_of_int n = Inr (of_int n)"
  using to_double_exact [OF assms] by (simp add: float_of_int_def)

lemma float_of_int_small: "\<bar>n\<bar> \<le> 2 ^ 53 \<Longrightarrow> float_of_int n = Inr (of_int n)"
proof (rule float_of_int_exact)
  assume n: "\<bar>n\<bar> \<le> 2 ^ 53"
  then show "is_double (of_int n)" by (rule is_double_of_int)
  from n have "\<bar>of_int n :: rat\<bar> \<le> of_int (2 ^ 53)"
    by (simp only: of_int_abs [symmetric] of_int_le_iff)
  also have "\<dots> = 2 powi 53" by simp
  also have "\<dots> < double_limit" unfolding double_limit_def by (rule pow2_strict_mono) simp
  finally show "\<bar>of_int n :: rat\<bar> < double_limit" .
qed

section \<open>Properties of the interpolator\<close>

lemma py_index_last:
  "xs \<noteq> [] \<Longrightarrow> py_index xs (int (length xs) - 1) = Inr (xs ! (length xs - 1))"
  by (cases xs) (simp_all add: py_index_def Let_def nat_diff_distrib')

lemma py_index_in_range:
  "0 \<le> i \<Longrightarrow> i < int (length xs) \<Longrightarrow> py_index xs i = Inr (xs ! nat i)"
  by (simp add: py_index_def Let_def)

lemma py_index_beyond:
  "int (length xs) \<le> i \<Longrightarrow> py_index xs i = Inl IndexError"
  by (simp add: py_index_def Let_def)

lemma py_index_Inr_nonneg:
  "py_index xs i = Inr x \<Longrightarrow> 0 \<le> i \<Longrightarrow> i < int (length xs) \<and> x = xs ! nat i"
  by (auto simp: py_index_def split: if_splits)

text \<open>A finite position that the code has computed is a double below the overflow limit.\<close>

lemma image_position_Finite:
  assumes "image_position dusk_index cursor day_length = Inr (Finite p)"
  shows "is_double p" and "\<bar>p\<bar> < double_limit" and "day_length \<noteq> 0"
proof -
  from assms obtain prod where pr: "py_mul dusk_index cursor = Inr prod"
    and dv: "py_truediv prod day_length = Inr (Finite p)"
    by (auto simp: image_position_def split: sum.splits)
  from dv show nz: "day_length \<noteq> 0" by (auto simp: py_truediv_def split: if_splits)
  from dv nz obtain x where "to_double x = Finite p"
    by (cases prod) (auto simp: py_truediv_def split: if_splits)
  then have "p = round_double x \<and> \<bar>p\<bar> < double_limit"
    using to_double_Finite_iff [of x p] by blast
  then show "is_double p" and "\<bar>p\<bar> < double_limit"
    using is_double_round_double [of x] by blast+
qed

lemma get_current_images_clamped:
  assumes "image_position dusk_index (total_seconds (now - dawn_time)) day_length = Inr p"
    and "images \<noteq> []"
    and "float_less p 1 \<or> float_greater p (int (length images) - 1)"
  shows "get_current_images now dawn_time day_length images dusk_index =
           Inr (images ! (length images - 1), images ! (length images - 1), Finite 1)"
  using assms
  by (simp add: get_current_images_def Let_def py_index_last)

text \<open>
  In the branch that is not clamped, the first image and the fraction are exact: the
  floor of a double and its fractional part are doubles.
\<close>

lemma py_sub_floor:
  assumes d: "is_double p" and lim: "\<bar>p\<bar> < double_limit" and nn: "0 \<le> p"
  shows "py_sub (Finite p) \<lfloor>p\<rfloor> = Inr (Finite (p - of_int \<lfloor>p\<rfloor>))"
proof -
  have fl: "0 \<le> \<lfloor>p\<rfloor>" using nn by simp
  then have fr: "(0 :: rat) \<le> of_int \<lfloor>p\<rfloor>" by simp
  have "(of_int \<lfloor>p\<rfloor> :: rat) \<le> p" by simp
  with fr lim nn have "\<bar>of_int \<lfloor>p\<rfloor> :: rat\<bar> < double_limit" by linarith
  with is_double_floor_frac(1) [OF d nn] have f: "float_of_int \<lfloor>p\<rfloor> = Inr (of_int \<lfloor>p\<rfloor>)"
    by (rule float_of_int_exact)
  have "0 \<le> p - of_int \<lfloor>p\<rfloor>" "p - of_int \<lfloor>p\<rfloor> \<le> p" using fr by simp_all
  with lim nn have "\<bar>p - of_int \<lfloor>p\<rfloor>\<bar> < double_limit" by linarith
  with is_double_floor_frac(2) [OF d nn] have "to_double (p - of_int \<lfloor>p\<rfloor>) = Finite (p - of_int \<lfloor>p\<rfloor>)"
    by (rule to_double_exact)
  with f show ?thesis by simp
qed

lemma get_current_images_interior:
  assumes pos: "image_position dusk_index (total_seconds (now - dawn_time)) day_length
                  = Inr (Finite p)"
    and lo: "1 \<le> p" and hi: "p \<le> of_int (int (length images) - 1)"
  shows "get_current_images now dawn_time day_length images dusk_index =
           (case math_floor (py_add (Finite p) 1) of
              Inl e \<Rightarrow> Inl e
            | Inr j \<Rightarrow>
                (case py_index images j of
                   Inl e \<Rightarrow> Inl e
                 | Inr img2 \<Rightarrow> Inr (images ! nat \<lfloor>p\<rfloor>, img2, Finite (p - of_int \<lfloor>p\<rfloor>))))"
proof -
  note d = image_position_Finite [OF pos]
  from lo have nn: "0 \<le> p" by simp
  have i0: "1 \<le> \<lfloor>p\<rfloor>" using lo by (simp add: le_floor_iff)
  from hi have "\<lfloor>p\<rfloor> \<le> \<lfloor>of_int (int (length images) - 1) :: rat\<rfloor>" by (rule floor_mono)
  then have "\<lfloor>p\<rfloor> \<le> int (length images) - 1" by (simp only: floor_of_int)
  then have i1: "\<lfloor>p\<rfloor> < int (length images)" by simp
  have ix: "py_index images \<lfloor>p\<rfloor> = Inr (images ! nat \<lfloor>p\<rfloor>)"
    using i0 i1 by (intro py_index_in_range) simp_all
  have sub: "py_sub (Finite p) \<lfloor>p\<rfloor> = Inr (Finite (p - of_int \<lfloor>p\<rfloor>))"
    using d(1,2) nn by (rule py_sub_floor)
  have guard: "\<not> (float_less (Finite p) 1 \<or> float_greater (Finite p) (int (length images) - 1))"
    using lo hi by (simp add: not_less)
  show ?thesis
    unfolding get_current_images_def Let_def pos
    using guard ix sub
    by (simp split: sum.splits)
qed

text \<open>Rounding respects the order, so the position grows with the cursor.\<close>

lemma double_le_PlusInf [simp]: "double_le a PlusInf"
  by (cases a) simp_all

lemma double_le_MinusInf [simp]: "double_le MinusInf a"
  by (cases a) simp_all

lemma py_truediv_mono:
  assumes "0 < b" and "double_le a1 a2"
    and "py_truediv a1 b = Inr q1" and "py_truediv a2 b = Inr q2"
  shows "double_le q1 q2"
proof -
  from assms(1) have nz: "b \<noteq> 0" by simp
  show ?thesis
  proof (cases a1)
    case f1: (Finite x1)
    show ?thesis
    proof (cases a2)
      case f2: (Finite x2)
      with f1 assms(2) have "x1 \<le> x2" by simp
      with assms(1) have "x1 / b \<le> x2 / b" by (simp add: divide_right_mono)
      then have "double_le (to_double (x1 / b)) (to_double (x2 / b))" by (rule to_double_mono)
      with assms(3,4) nz f1 f2 show ?thesis by (simp add: py_truediv_def)
    next
      case PlusInf
      with assms(1,4) nz have "q2 = PlusInf" by (simp add: py_truediv_def)
      then show ?thesis by (cases q1) simp_all
    next
      case MinusInf
      with f1 assms(2) show ?thesis by simp
    qed
  next
    case PlusInf
    with assms(2) have "a2 = PlusInf" by (cases a2) simp_all
    with PlusInf assms(1,3,4) nz show ?thesis by (simp add: py_truediv_def)
  next
    case MinusInf
    with assms(1,3) nz have "q1 = MinusInf" by (simp add: py_truediv_def)
    then show ?thesis by simp
  qed
qed

lemma image_position_mono:
  assumes "0 < day_length" and "0 \<le> dusk_index" and "c1 \<le> c2"
    and p1: "image_position dusk_index c1 day_length = Inr p1"
    and p2: "image_position dusk_index c2 day_length = Inr p2"
  shows "double_le p1 p2"
proof -
  from p1 obtain d a1 where d: "float_of_int dusk_index = Inr d"
    and a1: "a1 = to_double (d * c1)" and q1: "py_truediv a1 day_length = Inr p1"
    by (auto simp: image_position_def py_mul_def split: sum.splits)
  from p2 d obtain a2 where a2: "a2 = to_double (d * c2)"
    and q2: "py_truediv a2 day_length = Inr p2"
    by (auto simp: image_position_def py_mul_def split: sum.splits)
  from assms(2) d have "0 \<le> d" by (rule float_of_int_nonneg)
  with assms(3) have "d * c1 \<le> d * c2" by (rule mult_left_mono)
  then have "double_le a1 a2" unfolding a1 a2 by (rule to_double_mono)
  with assms(1) show ?thesis using q1 q2 by (rule py_truediv_mono)
qed

lemma total_seconds_mono: "a \<le> b \<Longrightarrow> total_seconds a \<le> total_seconds b"
  unfolding total_seconds_def by (rule round_double_mono)

lemma py_add_mono: "double_le a b \<Longrightarrow> double_le (py_add a n) (py_add b n)"
proof (cases a; cases b)
  fix x y
  assume "double_le a b" "a = Finite x" "b = Finite y"
  then have "x + of_int n \<le> y + of_int n" by simp
  then have "double_le (to_double (x + of_int n)) (to_double (y + of_int n))"
    by (rule to_double_mono)
  with \<open>a = Finite x\<close> \<open>b = Finite y\<close> show ?thesis by simp
qed simp_all

lemma math_floor_mono:
  "double_le a b \<Longrightarrow> math_floor a = Inr i \<Longrightarrow> math_floor b = Inr j \<Longrightarrow> i \<le> j"
  by (cases a; cases b) (auto intro: floor_mono)

lemma float_greater_mono: "double_le a b \<Longrightarrow> float_greater a n \<Longrightarrow> float_greater b n"
  by (cases a; cases b) simp_all

lemma float_less_antimono: "double_le a b \<Longrightarrow> float_less b n \<Longrightarrow> float_less a n"
  by (cases a; cases b) simp_all

lemma get_current_images_position:
  assumes "get_current_images now dawn_time day_length images dusk_index = Inr r"
  shows "\<exists>q. image_position dusk_index (total_seconds (now - dawn_time)) day_length = Inr q"
  using assms by (auto simp: get_current_images_def Let_def split: sum.splits)

text \<open>
  At the position \<open>N - 1\<close> itself the guard lets the call through and the second access
  is \<open>images[N]\<close> (for a number of images that is a double).
\<close>

lemma get_current_images_top:
  assumes pos: "image_position dusk_index (total_seconds (now - dawn_time)) day_length
                  = Inr (Finite (of_int (int (length images) - 1)))"
    and n2: "2 \<le> length images" and n53: "int (length images) \<le> 2 ^ 53"
  shows "get_current_images now dawn_time day_length images dusk_index = Inl IndexError"
proof -
  let ?p = "of_int (int (length images) - 1) :: rat"
  have lo: "1 \<le> ?p" using n2 by simp
  have "?p + of_int 1 = of_int (int (length images))" by simp
  moreover have "to_double (of_int (int (length images))) = Finite (of_int (int (length images)))"
    using float_of_int_small [of "int (length images)"] n53
    by (simp add: float_of_int_def split: double.splits)
  ultimately have "py_add (Finite ?p) 1 = Finite (of_int (int (length images)))"
    by (simp only: py_add.simps)
  then have fl: "math_floor (py_add (Finite ?p) 1) = Inr (int (length images))"
    by (simp only: math_floor.simps floor_of_int)
  have ix: "py_index images (int (length images)) = Inl IndexError"
    by (rule py_index_beyond) simp
  have hi: "?p \<le> of_int (int (length images) - 1)" by simp
  show ?thesis
    unfolding get_current_images_interior [OF pos lo hi] fl by (simp add: ix)
qed

text \<open>
  The function treats the images as opaque handles: it commutes with any renaming of
  them. So its result on the list of indices \<open>[0..<length images]\<close> tells which
  positions of \<open>images\<close> it returns.
\<close>

lemma py_index_map: "py_index (map h xs) i = map_sum id h (py_index xs i)"
  by (auto simp: py_index_def nat_less_iff)

lemma get_current_images_map:
  "get_current_images now dawn_time day_length (map h images) dusk_index =
     map_sum id (\<lambda>(a, b, f). (h a, h b, f))
       (get_current_images now dawn_time day_length images dusk_index)"
  by (simp add: get_current_images_def py_index_map Let_def split: sum.splits)

lemma get_current_images_of_indices:
  "get_current_images now dawn_time day_length images dusk_index =
     map_sum id (\<lambda>(i, j, f). (images ! i, images ! j, f))
       (get_current_images now dawn_time day_length [0..<length images] dusk_index)"
proof -
  have "images = map (\<lambda>i. images ! i) [0..<length images]"
    by (simp add: map_nth)
  then have "get_current_images now dawn_time day_length images dusk_index =
      get_current_images now dawn_time day_length (map (\<lambda>i. images ! i) [0..<length images]) dusk_index"
    by simp
  then show ?thesis
    by (simp only: get_current_images_map)
qed

lemma py_index_upt:
  "py_index [0..<n] i = Inr k \<Longrightarrow> 0 \<le> i \<Longrightarrow> int k = i \<and> k < n"
  by (auto simp: py_index_def Let_def split: if_splits)

lemma get_current_images_ids:
  assumes r: "get_current_images now dawn_time day_length [0..<n] dusk_index = Inr (i, j, f)"
    and q: "image_position dusk_index (total_seconds (now - dawn_time)) day_length = Inr q"
  shows "if float_less q 1 \<or> float_greater q (int n - 1)
         then int i = int n - 1 \<and> int j = int n - 1 \<and> 0 < n
         else (\<exists>p. q = Finite p \<and> int i = \<lfloor>p\<rfloor>)
              \<and> math_floor (py_add q 1) = Inr (int j) \<and> j < n"
proof (cases "float_less q 1 \<or> float_greater q (int n - 1)")
  case True
  with r q have "py_index [0..<n] (int n - 1) = Inr i \<and> i = j"
    by (auto simp: get_current_images_def Let_def split: if_splits sum.splits)
  then have "int i = int n - 1 \<and> i = j \<and> 0 < n"
    by (auto simp: py_index_def Let_def split: if_splits)
  with True show ?thesis by simp
next
  case False
  then obtain p where p: "q = Finite p" and lo: "1 \<le> p" and hi: "p \<le> of_int (int n - 1)"
    by (cases q) (auto simp: not_less)
  from hi have hi': "p \<le> of_int (int (length [0..<n]) - 1)" by simp
  from q p have pos: "image_position dusk_index (total_seconds (now - dawn_time)) day_length
      = Inr (Finite p)" by simp
  have i0: "1 \<le> \<lfloor>p\<rfloor>" using lo by (simp add: le_floor_iff)
  from hi have "\<lfloor>p\<rfloor> \<le> \<lfloor>of_int (int n - 1) :: rat\<rfloor>" by (rule floor_mono)
  then have "\<lfloor>p\<rfloor> \<le> int n - 1" by (simp only: floor_of_int)
  then have i1: "\<lfloor>p\<rfloor> < int n" by simp
  from r get_current_images_interior [OF pos lo hi']
  obtain j' where fl: "math_floor (py_add (Finite p) 1) = Inr j'"
    and ix: "py_index [0..<n] j' = Inr j" and i: "i = [0..<n] ! nat \<lfloor>p\<rfloor>"
    by (auto split: sum.splits)
  from i i0 i1 have ii: "int i = \<lfloor>p\<rfloor>" by simp
  have "double_le (Finite p) (py_add (Finite p) 1)"
    using to_double_mono [of p "p + of_int 1"] image_position_Finite(1,2) [OF pos]
    by (simp add: to_double_exact)
  with fl have "\<lfloor>p\<rfloor> \<le> j'"
    using math_floor_mono [of "Finite p" "py_add (Finite p) 1" "\<lfloor>p\<rfloor>" j'] by simp
  with i0 have "0 \<le> j'" by linarith
  with ix have "int j = j' \<and> j < n" by (rule py_index_upt)
  with fl p ii False show ?thesis by auto
qed

lemma image_position_defined:
  assumes "day_length \<noteq> 0" and "float_of_int dusk_index \<noteq> Inl OverflowError"
  shows "\<exists>p. image_position dusk_index cursor day_length = Inr p"
proof -
  from assms(2) obtain d where "float_of_int dusk_index = Inr d"
    by (auto simp: float_of_int_def split: double.splits)
  with assms(1) show ?thesis
    by (simp add: image_position_def py_mul_def py_truediv_def)
qed

lemma image_position_before_dawn:
  assumes "cursor \<le> 0" and "0 < day_length" and "0 \<le> dusk_index"
    and "image_position dusk_index cursor day_length = Inr q"
  shows "double_le q (Finite 0)"
proof -
  from assms(4) obtain d where d: "float_of_int dusk_index = Inr d"
    and q: "py_truediv (to_double (d * cursor)) day_length = Inr q"
    by (auto simp: image_position_def py_mul_def split: sum.splits)
  from assms(3) d have "0 \<le> d" by (rule float_of_int_nonneg)
  with assms(1) have "d * cursor \<le> 0" by (simp add: mult_nonneg_nonpos)
  then have a: "double_le (to_double (d * cursor)) (Finite 0)" by (rule to_double_nonpos)
  have z: "py_truediv (Finite 0) day_length = Inr (Finite 0)"
    using assms(2) by (simp add: py_truediv_def to_double_def)
  from assms(2) a q z show ?thesis by (rule py_truediv_mono)
qed


subsection \<open>The claims on the interpolator\<close>

text \<open>
  Claim C1, as the code has it. The guard of the source is
  \<^verbatim>\<open>image_id < 1 or image_id > len(images) - 1\<close>, on the position that the code has
  computed in doubles. A position is computed whenever the day length is not zero and
  the dusk index converts to a float; when it is below 1 or above \<open>N - 1\<close> and there is
  at least one image, the call returns the last image twice with fraction 1.
\<close>

theorem get_current_images_out_of_range:
  "(day_length \<noteq> 0 \<and> float_of_int dusk_index \<noteq> Inl OverflowError \<longrightarrow>
      (\<exists>q. image_position dusk_index (total_seconds (now - dawn_time)) day_length = Inr q))
   \<and> (images \<noteq> []
        \<and> image_position dusk_index (total_seconds (now - dawn_time)) day_length = Inr p
        \<and> (float_less p 1 \<or> float_greater p (int (length images) - 1)) \<longrightarrow>
        get_current_images now dawn_time day_length images dusk_index =
          Inr (images ! (length images - 1), images ! (length images - 1), Finite 1))"
proof (intro conjI impI)
  assume "day_length \<noteq> 0 \<and> float_of_int dusk_index \<noteq> Inl OverflowError"
  then show "\<exists>q. image_position dusk_index (total_seconds (now - dawn_time)) day_length = Inr q"
    by (intro image_position_defined) simp_all
next
  assume a: "images \<noteq> []
        \<and> image_position dusk_index (total_seconds (now - dawn_time)) day_length = Inr p
        \<and> (float_less p 1 \<or> float_greater p (int (length images) - 1))"
  then have "image_position dusk_index (total_seconds (now - dawn_time)) day_length = Inr p"
    and "images \<noteq> []"
    and "float_less p 1 \<or> float_greater p (int (length images) - 1)"
    by simp_all
  then show "get_current_images now dawn_time day_length images dusk_index =
          Inr (images ! (length images - 1), images ! (length images - 1), Finite 1)"
    by (rule get_current_images_clamped)
qed

theorem get_current_images_out_of_range_witness:
  "image_position 13 (total_seconds (72000 - 28800)) 36000
     = Inr (Finite (8782019273372467 / 562949953421312))
   \<and> (15 :: rat) < 8782019273372467 / 562949953421312
   \<and> get_current_images 72000 28800 36000 [0..<16] 13 = Inr (15, 15, Finite 1)"
proof -
  have pos: "image_position 13 (total_seconds (72000 - 28800)) 36000
     = Inr (Finite (8782019273372467 / 562949953421312))"
    by code_simp
  have gt: "(15 :: rat) < 8782019273372467 / 562949953421312" by simp
  have hyp: "[0..<16] \<noteq> []
      \<and> image_position 13 (total_seconds (72000 - 28800)) 36000
          = Inr (Finite (8782019273372467 / 562949953421312))
      \<and> (float_less (Finite (8782019273372467 / 562949953421312)) 1
          \<or> float_greater (Finite (8782019273372467 / 562949953421312)) (int (length [0..<16]) - 1))"
    using pos by simp
  note t = get_current_images_out_of_range
    [of 36000 13 72000 28800 "[0..<16]" "Finite (8782019273372467 / 562949953421312)"]
  from mp [OF conjunct2 [OF t] hyp]
  have "get_current_images 72000 28800 36000 [0..<16] 13 = Inr (15, 15, Finite 1)"
    by simp
  with pos gt show ?thesis by (intro conjI)
qed

text \<open>
  With the bound \<open>N - 2\<close> of the claim as stated: 16 images, dusk index 13, a day of
  36000 s and a cursor of 40000 s give a position above 14, and the code blends images
  14 and 15. And the guard is on the computed position, not on the cursor: with a day of
  36000.00001 s and a cursor of 2769.23077 s the cursor is below
  \<open>day_length / dusk_index\<close>, yet the position computed is 1.0 and the code returns
  images 1 and 2.
\<close>

theorem get_current_images_below_top_counterexample:
  "image_position 13 (total_seconds (68800 - 28800)) 36000
     = Inr (Finite (8131499327196729 / 562949953421312))
   \<and> (14 :: rat) < 8131499327196729 / 562949953421312
   \<and> get_current_images 68800 28800 36000 [0..<16] 13
       = Inr (14, 15, Finite (250199979298361 / 562949953421312))
   \<and> total_seconds (276923077 / 100000 - 0) < total_seconds (3600000001 / 100000) / 13
   \<and> get_current_images (276923077 / 100000) 0 (total_seconds (3600000001 / 100000)) [0..<16] 13
       = Inr (1, 2, Finite 0)"
proof -
  have a: "image_position 13 (total_seconds (68800 - 28800)) 36000
     = Inr (Finite (8131499327196729 / 562949953421312))"
    by code_simp
  have b: "(14 :: rat) < 8131499327196729 / 562949953421312" by simp
  have c: "get_current_images 68800 28800 36000 [0..<16] 13
       = Inr (14, 15, Finite (250199979298361 / 562949953421312))"
    by code_simp
  have d: "total_seconds (276923077 / 100000 - 0) < total_seconds (3600000001 / 100000) / 13"
    by code_simp
  have e: "get_current_images (276923077 / 100000) 0 (total_seconds (3600000001 / 100000)) [0..<16] 13
       = Inr (1, 2, Finite 0)"
    by code_simp
  from a b c d e show ?thesis by (intro conjI)
qed

text \<open>
  Claim C2: every call returns two images of the sequence. The code does not at the
  position \<open>N - 1\<close> itself, which the guard lets through: the second access is
  \<open>images[N]\<close>. With 16 images, dusk index 13, a day of 46800 s (13 h) and a cursor of
  54000 s (15 h after dawn) the position is exactly 15.0 and the call raises IndexError.
\<close>

theorem get_current_images_index_error:
  "image_position 13 (total_seconds (82800 - 28800)) 46800 = Inr (Finite 15)
   \<and> get_current_images 82800 28800 46800 [0..<16] 13 = Inl IndexError"
  by code_simp




text \<open>
  Claim C4, as the code has it. The indices returned are read off the index list
  \<open>[0..<n]\<close>. For a positive day length, a dusk index that is not negative and two
  times \<open>now1 \<le> now2\<close> at which the function returns, the pair of indices at \<open>now1\<close>
  is pointwise below or equal to the pair at \<open>now2\<close>, provided the position at \<open>now1\<close>
  has reached 1, or the position at \<open>now2\<close> is still below 1 or already above
  \<open>n - 1\<close>.
\<close>

theorem get_current_images_monotone:
  assumes "0 < day_length" and "0 \<le> dusk_index" and "now1 \<le> now2"
    and r1: "get_current_images now1 dawn_time day_length [0..<n] dusk_index = Inr (i1, j1, f1)"
    and r2: "get_current_images now2 dawn_time day_length [0..<n] dusk_index = Inr (i2, j2, f2)"
    and q1: "image_position dusk_index (total_seconds (now1 - dawn_time)) day_length = Inr q1"
    and q2: "image_position dusk_index (total_seconds (now2 - dawn_time)) day_length = Inr q2"
    and side: "\<not> float_less q1 1 \<or> float_less q2 1 \<or> float_greater q2 (int n - 1)"
  shows "i1 \<le> i2 \<and> j1 \<le> j2"
proof -
  from assms(3) have "total_seconds (now1 - dawn_time) \<le> total_seconds (now2 - dawn_time)"
    by (intro total_seconds_mono) simp
  with assms(1,2) have le: "double_le q1 q2"
    using q1 q2 by (rule image_position_mono)
  note a = get_current_images_ids [OF r1 q1]
  note b = get_current_images_ids [OF r2 q2]
  have "int i1 \<le> int i2 \<and> int j1 \<le> int j2"
  proof (cases "float_less q1 1 \<or> float_greater q1 (int n - 1)")
    case c1: True
    have "float_less q2 1 \<or> float_greater q2 (int n - 1)"
    proof (cases "float_less q1 1")
      case True
      with side show ?thesis by simp
    next
      case False
      with c1 have "float_greater q1 (int n - 1)" by simp
      with le have "float_greater q2 (int n - 1)" by (rule float_greater_mono)
      then show ?thesis ..
    qed
    with a b c1 show ?thesis by simp
  next
    case c1: False
    with a obtain p1 where p1: "q1 = Finite p1" "int i1 = \<lfloor>p1\<rfloor>"
      and fl1: "math_floor (py_add q1 1) = Inr (int j1)" and j1: "j1 < n"
      by auto
    from c1 p1(1) have hi1: "p1 \<le> of_int (int n - 1)" by (simp add: not_less)
    then have "\<lfloor>p1\<rfloor> \<le> \<lfloor>of_int (int n - 1) :: rat\<rfloor>" by (rule floor_mono)
    then have i1: "int i1 \<le> int n - 1" unfolding p1(2) by (simp only: floor_of_int)
    show ?thesis
    proof (cases "float_less q2 1 \<or> float_greater q2 (int n - 1)")
      case True
      with b have "int i2 = int n - 1" "int j2 = int n - 1" by simp_all
      with i1 j1 show ?thesis by simp
    next
      case False
      with b obtain p2 where p2: "q2 = Finite p2" "int i2 = \<lfloor>p2\<rfloor>"
        and fl2: "math_floor (py_add q2 1) = Inr (int j2)"
        by auto
      from le p1(1) p2(1) have "p1 \<le> p2" by simp
      then have "\<lfloor>p1\<rfloor> \<le> \<lfloor>p2\<rfloor>" by (rule floor_mono)
      moreover from le have "double_le (py_add q1 1) (py_add q2 1)" by (rule py_add_mono)
      then have "int j1 \<le> int j2" using fl1 fl2 by (rule math_floor_mono)
      ultimately show ?thesis by (simp add: p1(2) p2(2))
    qed
  qed
  then show ?thesis by simp
qed

theorem get_current_images_monotone_witness:
  "get_current_images 43200 28800 36000 [0..<16] 13
     = Inr (5, 6, Finite (225179981368525 / 1125899906842624))
   \<and> get_current_images 50400 28800 36000 [0..<16] 13
     = Inr (7, 8, Finite (900719925474099 / 1125899906842624))
   \<and> (5 :: nat) \<le> 7 \<and> (6 :: nat) \<le> 8"
proof -
  have r1: "get_current_images 43200 28800 36000 [0..<16] 13
     = Inr (5, 6, Finite (225179981368525 / 1125899906842624))"
    by code_simp
  have r2: "get_current_images 50400 28800 36000 [0..<16] 13
     = Inr (7, 8, Finite (900719925474099 / 1125899906842624))"
    by code_simp
  have q1: "image_position 13 (total_seconds (43200 - 28800)) 36000
     = Inr (Finite (5854679515581645 / 1125899906842624))"
    by code_simp
  have q2: "image_position 13 (total_seconds (50400 - 28800)) 36000
     = Inr (Finite (8782019273372467 / 1125899906842624))"
    by code_simp
  have side: "\<not> float_less (Finite (5854679515581645 / 1125899906842624)) 1
      \<or> float_less (Finite (8782019273372467 / 1125899906842624)) 1
      \<or> float_greater (Finite (8782019273372467 / 1125899906842624)) (int 16 - 1)"
    by simp
  have "(0 :: rat) < 36000" "(0 :: int) \<le> 13" "(43200 :: rat) \<le> 50400" by simp_all
  from get_current_images_monotone [OF this r1 r2 q1 q2 side] r1 r2
  show ?thesis by (intro conjI) simp_all
qed

text \<open>
  Without the side condition the claim fails: at dawn the position is 0 and the code
  returns the last image, index 15, twice; four hours later it returns indices 5 and 6.
\<close>

theorem get_current_images_not_monotone_counterexample:
  "(28800 :: rat) \<le> 43200
   \<and> get_current_images 28800 28800 36000 [0..<16] 13 = Inr (15, 15, Finite 1)
   \<and> get_current_images 43200 28800 36000 [0..<16] 13
       = Inr (5, 6, Finite (225179981368525 / 1125899906842624))
   \<and> \<not> ((15 :: nat) \<le> 5 \<and> (15 :: nat) \<le> 6)"
proof -
  have r1: "get_current_images 28800 28800 36000 [0..<16] 13 = Inr (15, 15, Finite 1)"
    by code_simp
  have r2: "get_current_images 43200 28800 36000 [0..<16] 13
       = Inr (5, 6, Finite (225179981368525 / 1125899906842624))"
    by code_simp
  show ?thesis by (simp add: r1 r2)
qed

text \<open>
  Claim C5: a fraction returned by \<open>get_current_images\<close> is a finite float in \<open>[0, 1]\<close>,
  and it is below 1 when the position is in the branch that is not clamped
  (\<open>1 \<le> position \<le> N - 1\<close>).
\<close>

theorem get_current_images_fraction:
  assumes r: "get_current_images now dawn_time day_length images dusk_index
                = Inr (img1, img2, amount)"
  shows "\<exists>a. amount = Finite a \<and> 0 \<le> a \<and> a \<le> 1
           \<and> (image_position dusk_index (total_seconds (now - dawn_time)) day_length
                 = Inr (Finite p)
               \<and> 1 \<le> p \<and> p \<le> of_int (int (length images) - 1) \<longrightarrow> a < 1)"
proof -
  from get_current_images_position [OF r] obtain q
    where q: "image_position dusk_index (total_seconds (now - dawn_time)) day_length = Inr q"
    by blast
  show ?thesis
  proof (cases "float_less q 1 \<or> float_greater q (int (length images) - 1)")
    case True
    with r q have "amount = Finite 1"
      by (auto simp: get_current_images_def Let_def split: if_splits sum.splits)
    moreover from True q
    have "\<not> (image_position dusk_index (total_seconds (now - dawn_time)) day_length
                 = Inr (Finite p)
               \<and> 1 \<le> p \<and> p \<le> of_int (int (length images) - 1))"
      by auto
    ultimately show ?thesis by simp
  next
    case False
    then obtain p' where p': "q = Finite p'" and lo: "1 \<le> p'"
      and hi: "p' \<le> of_int (int (length images) - 1)"
      by (cases q) (auto simp: not_less)
    from q p' have pos: "image_position dusk_index (total_seconds (now - dawn_time)) day_length
        = Inr (Finite p')" by simp
    from r get_current_images_interior [OF pos lo hi]
    have "amount = Finite (p' - of_int \<lfloor>p'\<rfloor>)"
      by (auto split: sum.splits)
    moreover have "0 \<le> p' - of_int \<lfloor>p'\<rfloor>" by simp
    moreover have "p' - of_int \<lfloor>p'\<rfloor> < 1" by linarith
    ultimately show ?thesis by simp
  qed
qed

theorem get_current_images_fraction_witness:
  "get_current_images 43200 28800 36000 [0..<16] 13
     = Inr (5, 6, Finite (225179981368525 / 1125899906842624))
   \<and> (0 :: rat) \<le> 225179981368525 / 1125899906842624
   \<and> (225179981368525 / 1125899906842624 :: rat) < 1"
proof -
  have r: "get_current_images 43200 28800 36000 [0..<16] 13
     = Inr (5, 6, Finite (225179981368525 / 1125899906842624))"
    by code_simp
  have pos: "image_position 13 (total_seconds (43200 - 28800)) 36000
     = Inr (Finite (5854679515581645 / 1125899906842624))
     \<and> (1 :: rat) \<le> 5854679515581645 / 1125899906842624
     \<and> (5854679515581645 / 1125899906842624 :: rat) \<le> of_int (int (length [0..<16]) - 1)"
  proof (intro conjI)
    show "image_position 13 (total_seconds (43200 - 28800)) 36000
     = Inr (Finite (5854679515581645 / 1125899906842624))"
      by code_simp
  qed simp_all
  from get_current_images_fraction [OF r, of "5854679515581645 / 1125899906842624"] pos
  have "(0 :: rat) \<le> 225179981368525 / 1125899906842624
      \<and> (225179981368525 / 1125899906842624 :: rat) < 1"
    by auto
  with r show ?thesis by (intro conjI) simp_all
qed

text \<open>
  Claim C6: at or before dawn (with a positive day length, a dusk index that is not
  negative and converts to a float, and at least one image) the position computed is at
  most 0 and the call returns the last image twice with fraction 1, without an error.
  With dawn at 08:00 (28800 s), a day of 36000 s, 16 images, dusk index 13 and now at
  08:00 the position is 0 and the result is \<open>(images[15], images[15], 1)\<close>.
\<close>

theorem get_current_images_before_dawn:
  "(now \<le> dawn_time \<and> 0 < day_length \<and> 0 \<le> dusk_index
      \<and> float_of_int dusk_index \<noteq> Inl OverflowError \<and> images \<noteq> [] \<longrightarrow>
      (\<exists>q. image_position dusk_index (total_seconds (now - dawn_time)) day_length = Inr q
            \<and> double_le q (Finite 0))
      \<and> get_current_images now dawn_time day_length images dusk_index =
          Inr (images ! (length images - 1), images ! (length images - 1), Finite 1))
   \<and> image_position 13 (total_seconds (28800 - 28800)) 36000 = Inr (Finite 0)
   \<and> (length images16 = 16 \<longrightarrow>
        get_current_images 28800 28800 36000 images16 13 =
          Inr (images16 ! 15, images16 ! 15, Finite 1))"
proof (intro conjI impI)
  assume a: "now \<le> dawn_time \<and> 0 < day_length \<and> 0 \<le> dusk_index
      \<and> float_of_int dusk_index \<noteq> Inl OverflowError \<and> images \<noteq> []"
  then have "day_length \<noteq> 0" "float_of_int dusk_index \<noteq> Inl OverflowError" by simp_all
  from image_position_defined [OF this] obtain q
    where q: "image_position dusk_index (total_seconds (now - dawn_time)) day_length = Inr q"
    by blast
  from a have "total_seconds (now - dawn_time) \<le> 0"
    by (simp add: total_seconds_def round_double_nonpos)
  with a q have le: "double_le q (Finite 0)"
    by (intro image_position_before_dawn [of "total_seconds (now - dawn_time)" day_length dusk_index])
      simp_all
  with q show "\<exists>q. image_position dusk_index (total_seconds (now - dawn_time)) day_length = Inr q
            \<and> double_le q (Finite 0)"
    by blast
  have "float_less (Finite 0) 1" by simp
  with le have "float_less q 1" by (rule float_less_antimono)
  then have guard: "float_less q 1 \<or> float_greater q (int (length images) - 1)" ..
  from a have ne: "images \<noteq> []" by simp
  from q ne guard show "get_current_images now dawn_time day_length images dusk_index =
          Inr (images ! (length images - 1), images ! (length images - 1), Finite 1)"
    by (rule get_current_images_clamped)
next
  show "image_position 13 (total_seconds (28800 - 28800)) 36000 = Inr (Finite 0)"
    by code_simp
next
  assume len: "length images16 = 16"
  have "get_current_images 28800 28800 36000 [0..<16] 13 = Inr (15, 15, Finite 1)"
    by code_simp
  then show "get_current_images 28800 28800 36000 images16 13 =
          Inr (images16 ! 15, images16 ! 15, Finite 1)"
    using get_current_images_of_indices [of 28800 28800 36000 images16 13]
    by (simp add: len)
qed

theorem get_current_images_before_dawn_witness:
  "get_current_images 25200 28800 36000 ''abcdefghijklmnop'' 13
     = Inr (CHR ''p'', CHR ''p'', Finite 1)
   \<and> get_current_images 28800 28800 36000 [0..<16] 13 = Inr (15, 15, Finite 1)"
proof -
  note t = get_current_images_before_dawn
      [of 25200 28800 36000 13 "''abcdefghijklmnop''" "[0..<16]"]
  have "float_of_int 13 = Inr 13" by (rule float_of_int_small [of 13, simplified])
  then have hyp: "(25200 :: rat) \<le> 28800 \<and> (0 :: rat) < 36000 \<and> (0 :: int) \<le> 13
      \<and> float_of_int 13 \<noteq> Inl OverflowError \<and> ''abcdefghijklmnop'' \<noteq> []"
    by simp
  have len: "length [0..<16] = 16" by simp
  from conjunct2 [OF mp [OF conjunct1 [OF t] hyp]]
  have a: "get_current_images 25200 28800 36000 ''abcdefghijklmnop'' 13
     = Inr (CHR ''p'', CHR ''p'', Finite 1)"
    by simp
  from mp [OF conjunct2 [OF conjunct2 [OF t]] len]
  have b: "get_current_images 28800 28800 36000 [0..<16] 13 = Inr (15, 15, Finite 1)"
    by simp
  from a b show ?thesis by (rule conjI)
qed

section \<open>Properties of \<^verbatim>\<open>init_images\<close>\<close>

lemma collect_map_Inr: "collect (map Inr xs) = Inr xs"
  by (induction xs) simp_all

lemma collect_Inr_D: "collect rs = Inr xs \<Longrightarrow> rs = map Inr xs"
  by (induction rs arbitrary: xs rule: collect.induct) (auto split: sum.splits)

lemma collect_Inr_iff: "collect rs = Inr xs \<longleftrightarrow> rs = map Inr xs"
  using collect_map_Inr collect_Inr_D by blast

lemma collect_Inl_mem: "collect rs = Inl e \<Longrightarrow> Inl e \<in> set rs"
  by (induction rs rule: collect.induct) (auto split: sum.splits)

lemma collect_fails:
  assumes "Inl e \<in> set rs"
  shows "\<exists>e'. collect rs = Inl e'"
proof (cases "collect rs")
  case (Inl e')
  then show ?thesis by blast
next
  case (Inr xs)
  then have "rs = map Inr xs" by (simp add: collect_Inr_iff)
  with assms show ?thesis by auto
qed

lemma insort_key_map:
  "insort_key f (g x) (map g xs) = map g (insort_key (\<lambda>y. f (g y)) x xs)"
  by (induction xs) simp_all

lemma sort_key_map:
  "sort_key f (map g xs) = map g (sort_key (\<lambda>y. f (g y)) xs)"
  by (induction xs) (simp_all add: insort_key_map)

lemma keys_of_map: "map k xs = map Inr keys \<Longrightarrow> keys = map (\<lambda>x. projr (k x)) xs"
  by (induction xs arbitrary: keys) auto

text \<open>
  When no key fails, \<^verbatim>\<open>sort(key=k)\<close> is the stable sort by the key, read as a
  total function.
\<close>

lemma py_sort_key_Inr:
  assumes "py_sort_key k xs = Inr ys"
  shows "\<exists>keys. map k xs = map Inr keys \<and> ys = sort_key (\<lambda>x. projr (k x)) xs"
proof -
  from assms obtain keys where c: "collect (map k xs) = Inr keys"
    and ys: "ys = map snd (sort_key fst (zip keys xs))"
    by (auto simp: py_sort_key_def split: sum.splits)
  from c have m: "map k xs = map Inr keys" by (simp add: collect_Inr_iff)
  then have "keys = map (\<lambda>x. projr (k x)) xs"
    by (rule keys_of_map)
  then have "zip keys xs = map (\<lambda>x. (projr (k x), x)) xs"
    by (simp add: zip_map1 zip_same_conv_map)
  then have "ys = sort_key (\<lambda>x. projr (k x)) xs"
    using ys by (simp add: sort_key_map comp_def)
  with m show ?thesis by blast
qed

lemma py_sort_key_fails:
  assumes "x \<in> set xs" and "k x = Inl e"
  shows "\<exists>e'. py_sort_key k xs = Inl e' \<and> (\<exists>y\<in>set xs. k y = Inl e')"
proof -
  from assms have "Inl e \<in> set (map k xs)" by force
  then obtain e' where c: "collect (map k xs) = Inl e'"
    using collect_fails by blast
  then have "Inl e' \<in> set (map k xs)" by (rule collect_Inl_mem)
  then have "\<exists>y\<in>set xs. k y = Inl e'" by auto
  with c show ?thesis by (simp add: py_sort_key_def)
qed

lemma numeric_key_error: "numeric_key f = Inl e \<Longrightarrow> e = ValueError \<and> (\<forall>c\<in>set f. \<not> is_digit c)"
  by (auto simp: numeric_key_def py_int_def strip_non_digits_def filter_empty_conv split: if_splits)

lemma numeric_key_defined: "(\<exists>n. numeric_key f = Inr n) \<longleftrightarrow> (\<exists>c\<in>set f. is_digit c)"
  by (auto simp: numeric_key_def py_int_def strip_non_digits_def filter_empty_conv)

lemma py_in_iff: "py_in sub s \<longleftrightarrow> (\<exists>pre post. s = pre @ sub @ post)"
proof (induction s)
  case Nil
  then show ?case by auto
next
  case (Cons c cs)
  show ?case
  proof
    assume "py_in sub (c # cs)"
    then consider "prefix sub (c # cs)" | "py_in sub cs" by auto
    then show "\<exists>pre post. c # cs = pre @ sub @ post"
    proof cases
      case 1
      then obtain post where "c # cs = sub @ post" by (auto simp: prefix_def)
      then have "c # cs = [] @ sub @ post" by simp
      then show ?thesis by blast
    next
      case 2
      with Cons.IH obtain pre post where "cs = pre @ sub @ post" by blast
      then have "c # cs = (c # pre) @ sub @ post" by simp
      then show ?thesis by blast
    qed
  next
    assume "\<exists>pre post. c # cs = pre @ sub @ post"
    then obtain pre post where eq: "c # cs = pre @ sub @ post" by blast
    show "py_in sub (c # cs)"
    proof (cases pre)
      case Nil
      with eq have "prefix sub (c # cs)" by (simp add: prefix_def)
      then show ?thesis by simp
    next
      case (Cons d pre')
      with eq have "cs = pre' @ sub @ post" by simp
      with Cons.IH have "py_in sub cs" by blast
      then show ?thesis by simp
    qed
  qed
qed

lemma init_images_Inr:
  assumes "listdir env path = Inr entries"
    and "init_images env path set_cmd = Inr (image_paths, image_files)"
  shows "py_sort_key numeric_key (filter is_image_name entries) = Inr image_paths"
  using assms by (auto simp: init_images_def split: sum.splits if_splits)

lemma init_images_key_error:
  assumes "listdir env path = Inr entries"
    and "py_sort_key numeric_key (filter is_image_name entries) = Inl e"
  shows "init_images env path set_cmd = Inl e"
  using assms by (simp add: init_images_def)

lemma init_images_no_images:
  assumes "listdir env path = Inr entries"
    and "filter is_image_name entries = []"
  shows "init_images env path set_cmd = (if set_cmd \<noteq> [] then Inl IndexError else Inr ([], []))"
  using assms by (simp add: init_images_def py_sort_key_def py_index_def)

lemma init_images_missing:
  "listdir env path = Inl e \<Longrightarrow> init_images env path set_cmd = Inl e"
  by (simp add: init_images_def)

lemma occurs_in_one_of:
  "((\<exists>pre post. g = pre @ a @ post) \<or> (\<exists>pre post. g = pre @ b @ post)
      \<or> (\<exists>pre post. g = pre @ c @ post))
   \<longleftrightarrow> (\<exists>pre sub post. sub \<in> {a, b, c} \<and> g = pre @ sub @ post)"
  by blast

lemma is_image_name_iff:
  "is_image_name g \<longleftrightarrow>
      (\<exists>pre sub post. sub \<in> {''jpeg'', ''jpg'', ''png''} \<and> g = pre @ sub @ post)"
  unfolding is_image_name_def py_in_iff by (rule occurs_in_one_of)

lemma init_images_selection:
  assumes "listdir env path = Inr entries"
    and "init_images env path set_cmd = Inr (image_paths, image_files)"
  shows "set image_paths = {f \<in> set entries. is_image_name f}"
proof -
  from assms have "py_sort_key numeric_key (filter is_image_name entries) = Inr image_paths"
    by (rule init_images_Inr)
  then have "image_paths = sort_key (\<lambda>x. projr (numeric_key x)) (filter is_image_name entries)"
    using py_sort_key_Inr [of numeric_key "filter is_image_name entries" image_paths] by simp
  then show ?thesis by simp
qed

lemma numeric_key_no_digit:
  assumes "\<forall>c\<in>set f. c \<notin> set ''0123456789''"
  shows "numeric_key f = Inl ValueError"
proof -
  from assms have "\<forall>c\<in>set f. \<not> is_digit c"
    unfolding is_digit_def .
  then have "filter is_digit f = []"
    by (simp only: filter_empty_conv)
  then show ?thesis
    by (simp add: numeric_key_def py_int_def strip_non_digits_def)
qed

lemma init_images_bad_key:
  assumes l: "listdir env path = Inr entries" and mem: "f \<in> set entries"
    and img: "is_image_name f" and nk: "numeric_key f = Inl ValueError"
  shows "init_images env path set_cmd = Inl ValueError"
proof -
  from mem img have "f \<in> set (filter is_image_name entries)" by simp
  from py_sort_key_fails [of f "filter is_image_name entries" numeric_key ValueError, OF this nk]
  obtain e' where f: "py_sort_key numeric_key (filter is_image_name entries) = Inl e'"
    and "\<exists>y\<in>set (filter is_image_name entries). numeric_key y = Inl e'"
    by blast
  then obtain y where "numeric_key y = Inl e'" by blast
  then have "e' = ValueError" by (simp add: numeric_key_error)
  with f l show ?thesis
    by (simp add: init_images_key_error)
qed

lemma numeric_key_defined_iff:
  "(\<exists>n. numeric_key f = Inr n) \<longleftrightarrow> (\<exists>c\<in>set f. c \<in> set ''0123456789'')"
  unfolding numeric_key_defined is_digit_def ..

lemma main_startup_failed:
  "init_images env (expanduser env (folder a)) (command a) = Inl e
     \<Longrightarrow> main env a files fuel = StartupFailed e"
  by (simp add: main_def)

lemma main_enters_loop:
  "init_images env (expanduser env (folder a)) (command a) = Inr (image_paths, images)
     \<Longrightarrow> main env a files fuel = main_loop env a images files 0 fuel"
  by (simp add: main_def)

subsection \<open>The claims on loading, blending and startup\<close>

text \<open>
  Claim C7, as the code has it. When \<open>init_images\<close> returns, the paths it returns are
  the selected entries of the folder, each as often as it is listed, in ascending order of
  the integer made of the digits of the name. When the keys of the selected names are
  pairwise distinct the order is strictly ascending, and it is the only ascending
  arrangement of these names, whatever the order of the listing. Names with equal keys
  raise no error: they stay in the order of the listing.
\<close>

theorem init_images_sorted:
  assumes l: "listdir env path = Inr entries"
    and r: "init_images env path set_cmd = Inr (image_paths, image_files)"
  shows "mset image_paths = mset (filter is_image_name entries)
     \<and> (\<exists>keys. map numeric_key image_paths = map Inr keys \<and> sorted keys
          \<and> (distinct (map numeric_key (filter is_image_name entries)) \<longrightarrow> sorted_wrt (<) keys))
     \<and> (distinct (map numeric_key (filter is_image_name entries)) \<longrightarrow>
          (\<forall>ys keys'. mset ys = mset (filter is_image_name entries)
              \<and> map numeric_key ys = map Inr keys' \<and> sorted keys' \<longrightarrow> ys = image_paths))
     \<and> (\<forall>k. filter (\<lambda>f. numeric_key f = k) image_paths
              = filter (\<lambda>f. numeric_key f = k) (filter is_image_name entries))"
proof -
  define sel where "sel = filter is_image_name entries"
  define key where "key = (\<lambda>f. projr (numeric_key f))"
  from init_images_Inr[OF l r] have "py_sort_key numeric_key sel = Inr image_paths"
    by (simp add: sel_def)
  then obtain keys0 where m: "map numeric_key sel = map Inr keys0"
    and ip: "image_paths = sort_key key sel"
    using py_sort_key_Inr[of numeric_key sel image_paths] by (auto simp: key_def)
  have k0: "keys0 = map key sel" using m unfolding key_def by (rule keys_of_map)
  have nk: "numeric_key f = Inr (key f)" if "f \<in> set sel" for f
  proof -
    from that m k0 have "map numeric_key sel = map (\<lambda>f. Inr (key f)) sel" by simp
    with that show ?thesis by (simp add: map_eq_conv)
  qed
  have ms: "mset image_paths = mset sel" by (simp add: ip)
  have st: "set image_paths = set sel" by (simp add: ip)
  have keys: "map numeric_key image_paths = map Inr (map key image_paths)"
    using nk st by simp
  have srt: "sorted (map key image_paths)" by (simp add: ip)
  have strict: "sorted_wrt (<) (map key image_paths)" if d: "distinct (map numeric_key sel)"
  proof -
    from d have "distinct (map (\<lambda>f. Inr (key f) :: error + int) sel)"
      using nk by (simp add: map_eq_conv cong: map_cong)
    then have "distinct (map key sel)"
      by (simp add: distinct_map inj_on_def)
    moreover have "mset (map key image_paths) = mset (map key sel)"
      using ms by (metis mset_map)
    ultimately have "distinct (map key image_paths)"
      by (metis mset_eq_imp_distinct_iff)
    with srt show ?thesis by (simp add: strict_sorted_iff)
  qed
  have unique: "ys = image_paths"
    if d: "distinct (map numeric_key sel)" and my: "mset ys = mset sel"
      and ky: "map numeric_key ys = map Inr keys'" and sy: "sorted keys'" for ys keys'
  proof -
    from d have "distinct (map (\<lambda>f. Inr (key f) :: error + int) sel)"
      using nk by (simp add: map_eq_conv cong: map_cong)
    then have inj: "inj_on key (set sel)"
      by (simp add: distinct_map inj_on_def)
    have "keys' = map key ys" using ky unfolding key_def by (rule keys_of_map)
    with sy have "sorted (map key ys)" by simp
    with my inj have "sort_key key sel = ys"
      by (intro sort_key_inj_key_eq) simp_all
    with ip show ?thesis by simp
  qed
  have stable: "filter (\<lambda>f. numeric_key f = k) image_paths = filter (\<lambda>f. numeric_key f = k) sel" for k
  proof (cases k)
    case (Inl e)
    have "filter (\<lambda>f. numeric_key f = k) image_paths = []"
      using nk st Inl by (auto simp: filter_empty_conv)
    moreover have "filter (\<lambda>f. numeric_key f = k) sel = []"
      using nk Inl by (auto simp: filter_empty_conv)
    ultimately show ?thesis by simp
  next
    case (Inr n)
    have "filter (\<lambda>f. numeric_key f = k) image_paths = filter (\<lambda>f. key f = n) image_paths"
      using nk st Inr by (intro filter_cong) auto
    also have "\<dots> = filter (\<lambda>f. key f = n) sel"
      unfolding ip by (rule sort_key_stable)
    also have "\<dots> = filter (\<lambda>f. numeric_key f = k) sel"
      using nk Inr by (intro filter_cong) auto
    finally show ?thesis .
  qed
  show ?thesis
    unfolding sel_def [symmetric]
  proof (intro conjI)
    show "mset image_paths = mset sel" by (rule ms)
    show "\<exists>keys. map numeric_key image_paths = map Inr keys \<and> sorted keys
          \<and> (distinct (map numeric_key sel) \<longrightarrow> sorted_wrt (<) keys)"
      using keys srt strict by blast
    show "distinct (map numeric_key sel) \<longrightarrow>
          (\<forall>ys keys'. mset ys = mset sel
              \<and> map numeric_key ys = map Inr keys' \<and> sorted keys' \<longrightarrow> ys = image_paths)"
      using unique by blast
    show "\<forall>k. filter (\<lambda>f. numeric_key f = k) image_paths
              = filter (\<lambda>f. numeric_key f = k) sel"
      using stable by blast
  qed
qed

theorem init_images_sorted_witness:
  "init_images (sample_env [''10.jpeg'', ''mypngs9.txt'', ''readme.md'', ''2.jpg'']) ''w'' ''feh {}''
     = Inr ([''2.jpg'', ''mypngs9.txt'', ''10.jpeg''], [''w/2.jpg'', ''w/mypngs9.txt'', ''w/10.jpeg''])
   \<and> distinct (map numeric_key
         (filter is_image_name [''10.jpeg'', ''mypngs9.txt'', ''readme.md'', ''2.jpg'']))
   \<and> (\<exists>keys. map numeric_key [''2.jpg'', ''mypngs9.txt'', ''10.jpeg''] = map Inr keys
         \<and> sorted_wrt (<) keys)"
proof -
  let ?L = "[''10.jpeg'', ''mypngs9.txt'', ''readme.md'', ''2.jpg'']"
  have l: "listdir (sample_env ?L) ''w'' = Inr ?L"
    by (simp add: sample_env_def)
  have r: "init_images (sample_env ?L) ''w'' ''feh {}''
     = Inr ([''2.jpg'', ''mypngs9.txt'', ''10.jpeg''], [''w/2.jpg'', ''w/mypngs9.txt'', ''w/10.jpeg''])"
    by code_simp
  have d: "distinct (map numeric_key (filter is_image_name ?L))"
    by code_simp
  note t = init_images_sorted [OF l r]
  from t obtain keys where "map numeric_key [''2.jpg'', ''mypngs9.txt'', ''10.jpeg''] = map Inr keys"
    and "distinct (map numeric_key (filter is_image_name ?L)) \<longrightarrow> sorted_wrt (<) keys"
    by (elim conjE exE)
  with d have "\<exists>keys. map numeric_key [''2.jpg'', ''mypngs9.txt'', ''10.jpeg''] = map Inr keys
         \<and> sorted_wrt (<) keys"
    by (intro exI [of _ keys] conjI) (assumption, rule mp)
  with r d show ?thesis by (intro conjI)
qed

text \<open>
  Two names with the key 1: the call returns both, in the order in which the folder
  lists them, and raises nothing.
\<close>

theorem init_images_duplicate_keys_counterexample:
  "numeric_key ''a1.png'' = numeric_key ''b1.png''
   \<and> init_images (sample_env [''a1.png'', ''b1.png'']) ''w'' ''feh {}''
       = Inr ([''a1.png'', ''b1.png''], [''w/a1.png'', ''w/b1.png''])
   \<and> init_images (sample_env [''b1.png'', ''a1.png'']) ''w'' ''feh {}''
       = Inr ([''b1.png'', ''a1.png''], [''w/b1.png'', ''w/a1.png''])"
  by code_simp

text \<open>
  Claim C8: writing the linear blend \<open>imageA * (1 - fraction) + imageB * fraction\<close>
  of an image with itself stores that image unchanged, at any fraction; for two images
  of the same dimensions, fraction 0 stores \<open>imageA\<close>, fraction 1 stores \<open>imageB\<close>,
  and every channel value of the stored image is the linear blend of the two inputs.
\<close>

theorem blend_images_linear:
  "blend_images linear_blend files imageA imageA fraction tmp_path = Inr (files(tmp_path \<mapsto> imageA))
   \<and> (length imageA = length imageB \<longrightarrow>
        blend_images linear_blend files imageA imageB 0 tmp_path = Inr (files(tmp_path \<mapsto> imageA))
        \<and> blend_images linear_blend files imageA imageB 1 tmp_path = Inr (files(tmp_path \<mapsto> imageB))
        \<and> (\<exists>out. blend_images linear_blend files imageA imageB fraction tmp_path
                    = Inr (files(tmp_path \<mapsto> out))
              \<and> length out = length imageA
              \<and> (\<forall>i<length imageA.
                    out ! i = imageA ! i * (1 - fraction) + imageB ! i * fraction)))"
proof (intro conjI impI)
  have "map2 (\<lambda>a b. a * (1 - fraction) + b * fraction) imageA imageA = imageA"
    by (simp add: zip_same_conv_map algebra_simps map_idI)
  then show "blend_images linear_blend files imageA imageA fraction tmp_path
      = Inr (files(tmp_path \<mapsto> imageA))"
    by (simp add: blend_images_def linear_blend_def)
next
  assume len: "length imageA = length imageB"
  have "map2 (\<lambda>a b. a * (1 - 0) + b * 0) imageA imageB = map fst (zip imageA imageB)"
    by (simp add: case_prod_beta)
  with len have "map2 (\<lambda>a b. a * (1 - 0) + b * 0) imageA imageB = imageA"
    by simp
  then show "blend_images linear_blend files imageA imageB 0 tmp_path
      = Inr (files(tmp_path \<mapsto> imageA))"
    by (simp add: blend_images_def linear_blend_def)
next
  assume len: "length imageA = length imageB"
  have "map2 (\<lambda>a b. a * (1 - 1) + b * 1) imageA imageB = map snd (zip imageA imageB)"
    by (simp add: case_prod_beta)
  with len have "map2 (\<lambda>a b. a * (1 - 1) + b * 1) imageA imageB = imageB"
    by simp
  then show "blend_images linear_blend files imageA imageB 1 tmp_path
      = Inr (files(tmp_path \<mapsto> imageB))"
    by (simp add: blend_images_def linear_blend_def)
next
  assume len: "length imageA = length imageB"
  let ?out = "map2 (\<lambda>a b. a * (1 - fraction) + b * fraction) imageA imageB"
  have "blend_images linear_blend files imageA imageB fraction tmp_path
      = Inr (files(tmp_path \<mapsto> ?out))"
    by (simp add: blend_images_def linear_blend_def)
  moreover have "length ?out = length imageA" using len by simp
  moreover have "\<forall>i<length imageA. ?out ! i = imageA ! i * (1 - fraction) + imageB ! i * fraction"
    using len by simp
  ultimately show "\<exists>out. blend_images linear_blend files imageA imageB fraction tmp_path
                    = Inr (files(tmp_path \<mapsto> out))
              \<and> length out = length imageA
              \<and> (\<forall>i<length imageA.
                    out ! i = imageA ! i * (1 - fraction) + imageB ! i * fraction)"
    by blast
qed

theorem blend_images_linear_witness:
  "blend_images linear_blend Map.empty [0, 1 / 2, 1] [1, 1, 0] 0 ''/tmp/wallpaper.png''
     = Inr [''/tmp/wallpaper.png'' \<mapsto> [0, 1 / 2, 1]]
   \<and> blend_images linear_blend Map.empty [0, 1 / 2, 1] [1, 1, 0] 1 ''/tmp/wallpaper.png''
     = Inr [''/tmp/wallpaper.png'' \<mapsto> [1, 1, 0]]"
proof -
  have len: "length [0, 1 / 2, 1 :: rat] = length [1, 1, 0 :: rat]" by simp
  note t = blend_images_linear
    [of Map.empty "[0, 1 / 2, 1]" "1 / 4" "''/tmp/wallpaper.png''" "[1, 1, 0]"]
  note c = mp [OF conjunct2 [OF t] len]
  from conjunct1 [OF c] conjunct1 [OF conjunct2 [OF c]] show ?thesis
    by (rule conjI)
qed

text \<open>
  Claim C9, as the code has it. When listing the folder fails, \<open>init_images\<close> raises
  and \<open>main\<close> fails at startup. When the folder lists no image name and the command is
  not the empty string, \<open>init_images\<close> raises IndexError at
  \<^verbatim>\<open>image_paths[int(len(image_paths)/2)]\<close> and \<open>main\<close> fails at startup, whatever
  the number of iterations granted.
\<close>

theorem main_fails_at_startup:
  "(listdir env (expanduser env (folder a)) = Inl e \<longrightarrow>
      init_images env (expanduser env (folder a)) (command a) = Inl e
      \<and> main env a files fuel = StartupFailed e)
   \<and> (listdir env (expanduser env (folder a)) = Inr entries
        \<and> filter is_image_name entries = [] \<and> command a \<noteq> [] \<longrightarrow>
        init_images env (expanduser env (folder a)) (command a) = Inl IndexError
        \<and> main env a files fuel = StartupFailed IndexError)"
proof (intro conjI impI)
  assume "listdir env (expanduser env (folder a)) = Inl e"
  then show i: "init_images env (expanduser env (folder a)) (command a) = Inl e"
    by (rule init_images_missing)
  then show "main env a files fuel = StartupFailed e"
    by (rule main_startup_failed)
next
  assume a: "listdir env (expanduser env (folder a)) = Inr entries
        \<and> filter is_image_name entries = [] \<and> command a \<noteq> []"
  then show i: "init_images env (expanduser env (folder a)) (command a) = Inl IndexError"
    by (simp add: init_images_no_images)
  then show "main env a files fuel = StartupFailed IndexError"
    by (rule main_startup_failed)
qed

theorem main_fails_at_startup_witness:
  "main (sample_env [''notes.txt'']) (sample_args ''feh --bg-scale {}'') Map.empty 5
     = StartupFailed IndexError
   \<and> main ((sample_env []) \<lparr>listdir := (\<lambda>_. Inl OSError)\<rparr>) (sample_args ''feh --bg-scale {}'')
         Map.empty 5
     = StartupFailed OSError"
proof -
  let ?a = "sample_args ''feh --bg-scale {}''"
  let ?e1 = "sample_env [''notes.txt'']"
  let ?e2 = "(sample_env []) \<lparr>listdir := (\<lambda>_. Inl OSError)\<rparr>"
  have h1: "listdir ?e1 (expanduser ?e1 (folder ?a)) = Inr [''notes.txt'']
        \<and> filter is_image_name [''notes.txt''] = [] \<and> command ?a \<noteq> []"
    by (simp add: sample_env_def sample_args_def is_image_name_def)
  have h2: "listdir ?e2 (expanduser ?e2 (folder ?a)) = Inl OSError"
    by (simp add: sample_env_def)
  note t1 = main_fails_at_startup [of ?e1 ?a OSError Map.empty 5 "[''notes.txt'']"]
  note t2 = main_fails_at_startup [of ?e2 ?a OSError Map.empty 5 "[]"]
  have "main ?e1 ?a Map.empty 5 = StartupFailed IndexError"
    by (rule conjunct2 [OF mp [OF conjunct2 [OF t1] h1]])
  moreover have "main ?e2 ?a Map.empty 5 = StartupFailed OSError"
    by (rule conjunct2 [OF mp [OF conjunct1 [OF t2] h2]])
  ultimately show ?thesis by (rule conjI)
qed

text \<open>
  With the empty string as command the access to the middle image is skipped:
  \<open>init_images\<close> returns two empty lists for a folder without images, \<open>main\<close> enters
  the loop, and the first iteration raises IndexError in \<open>get_current_images\<close>.
\<close>

theorem main_enters_loop_without_images_counterexample:
  "filter is_image_name [''notes.txt''] = []
   \<and> init_images (sample_env [''notes.txt'']) ''wallpapers'' '''' = Inr ([], [])
   \<and> main (sample_env [''notes.txt'']) (sample_args '''') Map.empty 1 = TickFailed 0 IndexError
   \<and> init_images (sample_env []) ''wallpapers'' '''' = Inr ([], [])
   \<and> main (sample_env []) (sample_args '''') Map.empty 1 = TickFailed 0 IndexError"
  by code_simp

text \<open>
  Claim C10: the paths returned by \<open>init_images\<close> are the entries in which
  \<open>jpeg\<close>, \<open>jpg\<close> or \<open>png\<close> occurs at any position; an entry selected in this
  way that has no digit makes the key raise ValueError, and \<open>init_images\<close> with it;
  the key is defined exactly for the names with at least one digit.
\<close>

theorem init_images_needs_digit:
  "(listdir env path = Inr entries
      \<and> init_images env path set_cmd = Inr (image_paths, image_files) \<longrightarrow>
      set image_paths =
        {f \<in> set entries. \<exists>pre sub post. sub \<in> {''jpeg'', ''jpg'', ''png''} \<and> f = pre @ sub @ post})
   \<and> (listdir env path = Inr entries \<and> f \<in> set entries
        \<and> (\<exists>pre sub post. sub \<in> {''jpeg'', ''jpg'', ''png''} \<and> f = pre @ sub @ post)
        \<and> (\<forall>c\<in>set f. c \<notin> set ''0123456789'') \<longrightarrow>
        numeric_key f = Inl ValueError
        \<and> init_images env path set_cmd = Inl ValueError)
   \<and> ((\<exists>n. numeric_key f = Inr n) \<longleftrightarrow> (\<exists>c\<in>set f. c \<in> set ''0123456789''))"
proof (rule conjI [OF _ conjI])
  show "listdir env path = Inr entries
      \<and> init_images env path set_cmd = Inr (image_paths, image_files) \<longrightarrow>
      set image_paths =
        {f \<in> set entries. \<exists>pre sub post. sub \<in> {''jpeg'', ''jpg'', ''png''} \<and> f = pre @ sub @ post}"
  proof
    assume a: "listdir env path = Inr entries
      \<and> init_images env path set_cmd = Inr (image_paths, image_files)"
    from a have l: "listdir env path = Inr entries" by (rule conjunct1)
    from a have r: "init_images env path set_cmd = Inr (image_paths, image_files)"
      by (rule conjunct2)
    from init_images_selection [OF l r]
    show "set image_paths =
        {f \<in> set entries. \<exists>pre sub post. sub \<in> {''jpeg'', ''jpg'', ''png''} \<and> f = pre @ sub @ post}"
      by (simp only: is_image_name_iff)
  qed
next
  show "listdir env path = Inr entries \<and> f \<in> set entries
        \<and> (\<exists>pre sub post. sub \<in> {''jpeg'', ''jpg'', ''png''} \<and> f = pre @ sub @ post)
        \<and> (\<forall>c\<in>set f. c \<notin> set ''0123456789'') \<longrightarrow>
        numeric_key f = Inl ValueError
        \<and> init_images env path set_cmd = Inl ValueError"
  proof
    assume a: "listdir env path = Inr entries \<and> f \<in> set entries
        \<and> (\<exists>pre sub post. sub \<in> {''jpeg'', ''jpg'', ''png''} \<and> f = pre @ sub @ post)
        \<and> (\<forall>c\<in>set f. c \<notin> set ''0123456789'')"
    from a have l: "listdir env path = Inr entries" by (rule conjunct1)
    from a have mem: "f \<in> set entries" by (rule conjunct2 [THEN conjunct1])
    from a have "\<exists>pre sub post. sub \<in> {''jpeg'', ''jpg'', ''png''} \<and> f = pre @ sub @ post"
      by (rule conjunct2 [THEN conjunct2, THEN conjunct1])
    then have img: "is_image_name f" by (simp only: is_image_name_iff)
    from a have "\<forall>c\<in>set f. c \<notin> set ''0123456789''"
      by (rule conjunct2 [THEN conjunct2, THEN conjunct2])
    then have nk: "numeric_key f = Inl ValueError" by (rule numeric_key_no_digit)
    from nk init_images_bad_key [OF l mem img nk]
    show "numeric_key f = Inl ValueError \<and> init_images env path set_cmd = Inl ValueError"
      by (rule conjI)
  qed
next
  show "(\<exists>n. numeric_key f = Inr n) \<longleftrightarrow> (\<exists>c\<in>set f. c \<in> set ''0123456789'')"
    by (rule numeric_key_defined_iff)
qed

theorem init_images_needs_digit_witness:
  "init_images (sample_env [''notes.txt'', ''holiday.png'', ''2.jpg'']) ''w'' ''feh {}''
     = Inl ValueError
   \<and> numeric_key ''holiday.png'' = Inl ValueError
   \<and> set [''2.jpg'', ''mypngs9.txt'', ''10.jpeg'']
       = {f \<in> set [''10.jpeg'', ''mypngs9.txt'', ''readme.md'', ''2.jpg''].
            \<exists>pre sub post. sub \<in> {''jpeg'', ''jpg'', ''png''} \<and> f = pre @ sub @ post}"
proof -
  let ?L = "[''10.jpeg'', ''mypngs9.txt'', ''readme.md'', ''2.jpg'']"
  let ?M = "[''notes.txt'', ''holiday.png'', ''2.jpg'']"
  have l: "listdir (sample_env ?L) ''w'' = Inr ?L"
    by (simp add: sample_env_def)
  have r: "init_images (sample_env ?L) ''w'' ''feh {}''
     = Inr ([''2.jpg'', ''mypngs9.txt'', ''10.jpeg''], [''w/2.jpg'', ''w/mypngs9.txt'', ''w/10.jpeg''])"
    by code_simp
  have m: "listdir (sample_env ?M) ''w'' = Inr ?M"
    by (simp add: sample_env_def)
  have mem: "''holiday.png'' \<in> set ?M" by simp
  have app: "''holiday.png'' = ''holiday.'' @ ''png'' @ []" by simp
  have "''png'' \<in> {''jpeg'', ''jpg'', ''png''}" by simp
  with app have "''png'' \<in> {''jpeg'', ''jpg'', ''png''} \<and> ''holiday.png'' = ''holiday.'' @ ''png'' @ []"
    by (rule conjI [rotated])
  then have sub: "\<exists>pre sub post. sub \<in> {''jpeg'', ''jpg'', ''png''} \<and> ''holiday.png'' = pre @ sub @ post"
    by (intro exI)
  have nd: "\<forall>c\<in>set ''holiday.png''. c \<notin> set ''0123456789''" by simp
  note t1 = init_images_needs_digit
    [of "sample_env ?L" "''w''" ?L "''feh {}''" "[''2.jpg'', ''mypngs9.txt'', ''10.jpeg'']"
      "[''w/2.jpg'', ''w/mypngs9.txt'', ''w/10.jpeg'']" "''holiday.png''"]
  from l r have h1: "listdir (sample_env ?L) ''w'' = Inr ?L
      \<and> init_images (sample_env ?L) ''w'' ''feh {}''
          = Inr ([''2.jpg'', ''mypngs9.txt'', ''10.jpeg''], [''w/2.jpg'', ''w/mypngs9.txt'', ''w/10.jpeg''])"
    by (rule conjI)
  have a: "set [''2.jpg'', ''mypngs9.txt'', ''10.jpeg'']
       = {f \<in> set ?L. \<exists>pre sub post. sub \<in> {''jpeg'', ''jpg'', ''png''} \<and> f = pre @ sub @ post}"
    by (rule mp [OF conjunct1 [OF t1] h1])
  note t2 = init_images_needs_digit
    [of "sample_env ?M" "''w''" ?M "''feh {}''" "[]" "[]" "''holiday.png''"]
  from m mem sub nd have h2: "listdir (sample_env ?M) ''w'' = Inr ?M \<and> ''holiday.png'' \<in> set ?M
        \<and> (\<exists>pre sub post. sub \<in> {''jpeg'', ''jpg'', ''png''} \<and> ''holiday.png'' = pre @ sub @ post)
        \<and> (\<forall>c\<in>set ''holiday.png''. c \<notin> set ''0123456789'')"
    by (intro conjI)
  have b: "numeric_key ''holiday.png'' = Inl ValueError
        \<and> init_images (sample_env ?M) ''w'' ''feh {}'' = Inl ValueError"
    by (rule mp [OF conjunct1 [OF conjunct2 [OF t2]] h2])
  from b have b1: "numeric_key ''holiday.png'' = Inl ValueError" by (rule conjunct1)
  from b have b2: "init_images (sample_env ?M) ''w'' ''feh {}'' = Inl ValueError"
    by (rule conjunct2)
  from b2 b1 a show ?thesis by (intro conjI)
qed

end
